theory Spec2Isabelle
  imports Main "HOL-Library.Word" "HOL-Library.Signed_Division"
begin

section \<open>The audio mixer of the recording daemon (recording-daemon/mix.c)\<close>

text \<open>
  A shallow embedding of \<^verbatim>\<open>mix.c\<close>. The C integers are words of their width
  (\<^verbatim>\<open>int\<close> and \<^verbatim>\<open>unsigned int\<close> are 32 bits, \<^verbatim>\<open>int64_t\<close> and \<^verbatim>\<open>uint64_t\<close> 64 bits);
  a signed value is the bit pattern of its two's complement, read with \<open>sint\<close> and
  widened with \<open>scast\<close>, an unsigned one is read with \<open>unat\<close> and widened with \<open>ucast\<close>.
  A pointer is \<open>None\<close> (NULL) or \<open>Some\<close> handle. A frame is held by value behind
  the pointer to it; the two frames that \<^verbatim>\<open>mix_add\<close> can free through its variable
  \<^verbatim>\<open>frame\<close> while the session still points to them have a pointer with a third state.

  The functions of libavfilter, libavutil, libavresample and the output module are
  not part of \<^verbatim>\<open>mix.c\<close>: they are parameters of the model, gathered in the record
  \<open>env\<close>. Every call of one of them is written to a history of events (newest
  first), and an external function with a result computes it from the history before
  the call and the arguments of the call. A function of \<^verbatim>\<open>mix.c\<close> takes the session
  with its history and returns both updated. A call that does not return (a loop that
  runs forever, a NULL pointer dereferenced, a freed frame used) is the value \<open>None\<close>.
  The debug output (\<^verbatim>\<open>dbg\<close>) is left out.
\<close>

type_synonym i32 = "32 word"
type_synonym u32 = "32 word"
type_synonym i64 = "64 word"
type_synonym u64 = "64 word"
type_synonym ptr = nat

subsection \<open>Data\<close>

text \<open>The fields of an \<^verbatim>\<open>AVFrame\<close> that \<^verbatim>\<open>mix.c\<close> reads or writes; \<open>extended_data\<close> is
  the buffer \<^verbatim>\<open>extended_data[0]\<close> of \<^verbatim>\<open>linesize[0]\<close> bytes, empty when the frame has none.\<close>

record AVFrame =
  format :: i32
  pts :: i64
  nb_samples :: i32
  sample_rate :: i32
  channel_layout :: u64
  extended_data :: "8 word list"

text \<open>A pointer to a frame: NULL, the address of a frame, or the address of a frame
  that has been freed.\<close>

datatype frame_ptr = Null | Frame AVFrame | Freed

text \<open>The pointer that \<^verbatim>\<open>av_frame_alloc\<close> returned, and the frame a pointer leads to.\<close>

definition allocated :: "AVFrame option \<Rightarrow> frame_ptr" where
  "allocated a = (case a of None \<Rightarrow> Null | Some f \<Rightarrow> Frame f)"

definition pointee :: "frame_ptr \<Rightarrow> AVFrame option" where
  "pointee p = (case p of Frame f \<Rightarrow> Some f | _ \<Rightarrow> None)"

text \<open>What the variable \<^verbatim>\<open>frame\<close> of \<^verbatim>\<open>mix_add\<close> holds inside the loop, when it is not
  NULL: the address that \<^verbatim>\<open>mix->sink_frame\<close> holds, or the one that \<^verbatim>\<open>mix->swr_frame\<close>
  holds.\<close>

datatype frame_ref = To_sink_frame | To_swr_frame

datatype loglevel = LOG_ERR | LOG_WARN

text \<open>The arguments \<^verbatim>\<open>snprintf\<close> formats for a filter: \<^verbatim>\<open>inputs=%lu\<close> for amix;
  \<^verbatim>\<open>time_base=%d/%d:sample_rate=%d:sample_fmt=%s:channel_layout=0x%PRIx64\<close> for abuffer;
  NULL for abuffersink.\<close>

datatype filter_args =
    Args_amix nat
  | Args_abuffer i32 i32 i32 string u64
  | Args_none

text \<open>The calls that leave \<^verbatim>\<open>mix.c\<close>, with their arguments and, last, their result.\<close>

datatype event =
    Ilog loglevel string
  | Avfilter_free ptr
  | Avresample_free "ptr option"
  | Avfilter_graph_free "ptr option"
  | Avfilter_graph_alloc "ptr option"
  | Avfilter_get_by_name string "ptr option"
  | Avfilter_graph_create_filter "ptr option" filter_args "ptr option" i32 "ptr option"
  | Avfilter_link "ptr option" nat "ptr option" nat i32
  | Avfilter_graph_config "ptr option" i32
  | Av_frame_alloc "AVFrame option"
  | Av_frame_free "AVFrame option"
  | Av_frame_unref "AVFrame option"
  | Av_frame_get_buffer AVFrame i32
  | Av_buffersrc_write_frame "ptr option" AVFrame i32
  | Av_buffersrc_add_frame "ptr option" AVFrame i32
  | Av_buffersink_get_frame "ptr option" i32
  | Output_add "ptr option" "AVFrame option" i32
  | Avresample_alloc_context "ptr option"
  | Av_opt_set_int "ptr option" string i64
  | Avresample_open "ptr option" i32
  | Avresample_convert "ptr option" AVFrame i32

text \<open>The external functions. Those with a history argument may answer differently
  from one call to the next; the others are pure.\<close>

record env =
  avfilter_graph_alloc :: "event list \<Rightarrow> ptr option"
  avfilter_get_by_name :: "event list \<Rightarrow> string \<Rightarrow> ptr option"
  avfilter_graph_create_filter ::
    "event list \<Rightarrow> ptr option \<Rightarrow> filter_args \<Rightarrow> ptr option \<Rightarrow> i32 \<times> ptr option"
  avfilter_link :: "event list \<Rightarrow> ptr option \<Rightarrow> nat \<Rightarrow> ptr option \<Rightarrow> nat \<Rightarrow> i32"
  avfilter_graph_config :: "event list \<Rightarrow> ptr option \<Rightarrow> i32"
  av_get_sample_fmt_name :: "i32 \<Rightarrow> string"
  av_get_default_channel_layout :: "i32 \<Rightarrow> u64"
  av_frame_alloc :: "event list \<Rightarrow> AVFrame option"
  av_frame_unref :: "AVFrame \<Rightarrow> AVFrame"
  av_frame_copy_props :: "AVFrame \<Rightarrow> AVFrame \<Rightarrow> AVFrame"
  av_frame_get_buffer :: "event list \<Rightarrow> AVFrame \<Rightarrow> i32 \<times> 8 word list"
  av_buffersrc_write_frame :: "event list \<Rightarrow> ptr option \<Rightarrow> AVFrame \<Rightarrow> i32"
  av_buffersrc_add_frame :: "event list \<Rightarrow> ptr option \<Rightarrow> AVFrame \<Rightarrow> i32"
  av_buffersink_get_frame :: "event list \<Rightarrow> ptr option \<Rightarrow> i32 \<times> AVFrame"
  output_add :: "event list \<Rightarrow> ptr option \<Rightarrow> AVFrame option \<Rightarrow> i32"
  avresample_alloc_context :: "event list \<Rightarrow> ptr option"
  avresample_open :: "event list \<Rightarrow> ptr option \<Rightarrow> i32"
  avresample_available :: "event list \<Rightarrow> ptr option \<Rightarrow> i32"
  avresample_get_delay :: "event list \<Rightarrow> ptr option \<Rightarrow> i32"
  avresample_convert :: "event list \<Rightarrow> ptr option \<Rightarrow> AVFrame \<Rightarrow> AVFrame \<Rightarrow> i32 \<times> 8 word list"
  av_rescale_rnd :: "i64 \<Rightarrow> i64 \<Rightarrow> i64 \<Rightarrow> i64"
  av_rescale :: "i64 \<Rightarrow> i64 \<Rightarrow> i64 \<Rightarrow> i64"

definition NUM_INPUTS :: nat where
  "NUM_INPUTS = 4"

text \<open>Constants of the libraries' headers: \<^verbatim>\<open>AV_SAMPLE_FMT_S16\<close> is 1 in the enumeration
  of libavutil, and \<^verbatim>\<open>AVERROR(EAGAIN)\<close> is \<^verbatim>\<open>-EAGAIN\<close>, that is -11.\<close>

definition AV_SAMPLE_FMT_S16 :: i32 where
  "AV_SAMPLE_FMT_S16 = 1"

definition AVERROR_EAGAIN :: i32 where
  "AVERROR_EAGAIN = - 11"

text \<open>\<^verbatim>\<open>struct mix_s\<close>.\<close>

record mix_s =
  clockrate :: i32
  channels :: i32
  graph :: "ptr option"
  src_ctxs :: "ptr option list"
  pts_offs :: "u64 list"
  in_pts :: "u64 list"
  amix_ctx :: "ptr option"
  sink_ctx :: "ptr option"
  next_idx :: u32
  sink_frame :: frame_ptr
  avresample :: "ptr option"
  swr_frame :: frame_ptr
  swr_buffers :: i32
  out_pts :: u64
  silence_frame :: "AVFrame option"

text \<open>The session together with the history of the external calls made so far.\<close>

record sys = mix_s +
  evs :: "event list"

definition emit :: "event \<Rightarrow> sys \<Rightarrow> sys" where
  "emit e s = s\<lparr>evs := e # evs s\<rparr>"

subsection \<open>mix\_shutdown\<close>

definition free_ctx :: "ptr option \<Rightarrow> sys \<Rightarrow> sys" where
  "free_ctx p s = (case p of None \<Rightarrow> s | Some c \<Rightarrow> emit (Avfilter_free c) s)"

fun shutdown_inputs :: "nat list \<Rightarrow> sys \<Rightarrow> sys" where
  "shutdown_inputs [] s = s"
| "shutdown_inputs (i # is) s =
     shutdown_inputs is ((free_ctx (src_ctxs s ! i) s)\<lparr>src_ctxs := (src_ctxs s)[i := None]\<rparr>)"

definition mix_shutdown :: "sys \<Rightarrow> sys" where
  "mix_shutdown s =
     (let s1 = (free_ctx (amix_ctx s) s)\<lparr>amix_ctx := None\<rparr>;
          s2 = (free_ctx (sink_ctx s1) s1)\<lparr>sink_ctx := None\<rparr>;
          s3 = shutdown_inputs [0..<NUM_INPUTS] s2;
          s4 = (emit (Avresample_free (avresample s3)) s3)\<lparr>avresample := None\<rparr>
      in (emit (Avfilter_graph_free (graph s4)) s4)\<lparr>graph := None\<rparr>)"

subsection \<open>mix\_destroy\<close>

text \<open>The session is freed: what is left is the history. A frame that was freed
  already is freed a second time here.\<close>

definition mix_destroy :: "sys \<Rightarrow> event list option" where
  "mix_destroy s =
     (let s1 = mix_shutdown s
      in if sink_frame s1 = Freed then None
         else if swr_frame s1 = Freed then None
         else Some (Av_frame_free (silence_frame s1) # Av_frame_free (pointee (swr_frame s1))
                      # Av_frame_free (pointee (sink_frame s1)) # evs s1))"

subsection \<open>mix\_get\_index\<close>

definition mix_get_index :: "sys \<Rightarrow> u32 \<times> sys" where
  "mix_get_index s = (next_idx s, s\<lparr>next_idx := next_idx s + 1\<rparr>)"

subsection \<open>mix\_new\<close>

text \<open>\<^verbatim>\<open>g_slice_alloc0\<close> gives a zeroed structure; the history starts empty.\<close>

definition mix_new :: "env \<Rightarrow> sys" where
  "mix_new env =
     \<lparr>clockrate = - 1, channels = - 1, graph = None,
      src_ctxs = replicate NUM_INPUTS None,
      pts_offs = replicate NUM_INPUTS (- 1),
      in_pts = replicate NUM_INPUTS 0,
      amix_ctx = None, sink_ctx = None, next_idx = 0,
      sink_frame = allocated (av_frame_alloc env []),
      avresample = None, swr_frame = Null, swr_buffers = 0, out_pts = 0,
      silence_frame = None,
      evs = [Av_frame_alloc (av_frame_alloc env [])]\<rparr>"

subsection \<open>mix\_config\<close>

text \<open>The loop over the inputs of \<^verbatim>\<open>mix_config\<close>; it returns the message of the step
  that failed, if one did.\<close>

fun config_inputs :: "env \<Rightarrow> ptr option \<Rightarrow> nat list \<Rightarrow> sys \<Rightarrow> string option \<times> sys" where
  "config_inputs env flt [] s = (None, s)"
| "config_inputs env flt (i # is) s =
     (let args = Args_abuffer 1 (clockrate s) (clockrate s)
                   (av_get_sample_fmt_name env AV_SAMPLE_FMT_S16)
                   (av_get_default_channel_layout env (channels s));
          r1 = avfilter_graph_create_filter env (evs s) flt args (graph s);
          s1 = (emit (Avfilter_graph_create_filter flt args (graph s) (fst r1) (snd r1)) s)
                 \<lparr>src_ctxs := (src_ctxs s)[i := snd r1]\<rparr>
      in if fst r1 \<noteq> 0 then (Some ''failed to create abuffer filter context'', s1)
         else
           (let r2 = avfilter_link env (evs s1) (src_ctxs s1 ! i) 0 (amix_ctx s1) i;
                s2 = emit (Avfilter_link (src_ctxs s1 ! i) 0 (amix_ctx s1) i r2) s1
            in if r2 \<noteq> 0 then (Some ''failed to link abuffer to amix'', s2)
               else config_inputs env flt is s2))"

text \<open>The part of \<^verbatim>\<open>mix_config\<close> from the label \<^verbatim>\<open>format_mismatch\<close> to the last
  \<^verbatim>\<open>goto err\<close>, in five stages. Each stage returns the message of the step that failed,
  if one did, and \<open>attempt\<close> runs a stage unless an earlier one failed.\<close>

definition attempt ::
  "string option \<times> sys \<Rightarrow> (sys \<Rightarrow> string option \<times> sys) \<Rightarrow> string option \<times> sys" where
  "attempt r stage = (case fst r of Some err \<Rightarrow> r | None \<Rightarrow> stage (snd r))"

definition config_graph :: "env \<Rightarrow> u32 \<Rightarrow> u32 \<Rightarrow> sys \<Rightarrow> string option \<times> sys" where
  "config_graph env cr ch s =
     (let s0 = (mix_shutdown s)\<lparr>clockrate := cr, channels := ch\<rparr>;
          g = avfilter_graph_alloc env (evs s0);
          s1 = (emit (Avfilter_graph_alloc g) s0)\<lparr>graph := g\<rparr>
      in if g = None then (Some ''failed to alloc filter graph'', s1) else (None, s1))"

definition config_amix :: "env \<Rightarrow> sys \<Rightarrow> string option \<times> sys" where
  "config_amix env s =
     (let flt = avfilter_get_by_name env (evs s) ''amix'';
          s1 = emit (Avfilter_get_by_name ''amix'' flt) s
      in if flt = None then (Some ''no amix filter available'', s1)
         else
          (let r = avfilter_graph_create_filter env (evs s1) flt (Args_amix NUM_INPUTS) (graph s1);
               s2 = (emit (Avfilter_graph_create_filter flt (Args_amix NUM_INPUTS) (graph s1)
                             (fst r) (snd r)) s1)\<lparr>amix_ctx := snd r\<rparr>
           in if fst r \<noteq> 0 then (Some ''failed to create amix filter context'', s2)
              else (None, s2)))"

definition config_abuffers :: "env \<Rightarrow> sys \<Rightarrow> string option \<times> sys" where
  "config_abuffers env s =
     (let flt = avfilter_get_by_name env (evs s) ''abuffer'';
          s1 = emit (Avfilter_get_by_name ''abuffer'' flt) s
      in if flt = None then (Some ''no abuffer filter available'', s1)
         else config_inputs env flt [0..<NUM_INPUTS] s1)"

definition config_sink :: "env \<Rightarrow> sys \<Rightarrow> string option \<times> sys" where
  "config_sink env s =
     (let flt = avfilter_get_by_name env (evs s) ''abuffersink'';
          s1 = emit (Avfilter_get_by_name ''abuffersink'' flt) s
      in if flt = None then (Some ''no abuffersink filter available'', s1)
         else
          (let r = avfilter_graph_create_filter env (evs s1) flt Args_none (graph s1);
               s2 = (emit (Avfilter_graph_create_filter flt Args_none (graph s1)
                             (fst r) (snd r)) s1)\<lparr>sink_ctx := snd r\<rparr>
           in if fst r \<noteq> 0 then (Some ''failed to create abuffersink filter context'', s2)
              else
               (let r2 = avfilter_link env (evs s2) (amix_ctx s2) 0 (sink_ctx s2) 0;
                    s3 = emit (Avfilter_link (amix_ctx s2) 0 (sink_ctx s2) 0 r2) s2
                in if r2 \<noteq> 0 then (Some ''failed to link amix to abuffersink'', s3)
                   else (None, s3))))"

definition config_finish :: "env \<Rightarrow> sys \<Rightarrow> string option \<times> sys" where
  "config_finish env s =
     (let r = avfilter_graph_config env (evs s) (graph s);
          s1 = emit (Avfilter_graph_config (graph s) r) s
      in if r \<noteq> 0 then (Some ''failed to configure filter chain'', s1) else (None, s1))"

definition config_build :: "env \<Rightarrow> u32 \<Rightarrow> u32 \<Rightarrow> sys \<Rightarrow> string option \<times> sys" where
  "config_build env cr ch s =
     attempt (attempt (attempt (attempt (config_graph env cr ch s)
       (config_amix env)) (config_abuffers env)) (config_sink env)) (config_finish env)"

text \<open>\<^verbatim>\<open>mix->clockrate != clockrate\<close> compares an \<^verbatim>\<open>int\<close> with an \<^verbatim>\<open>unsigned int\<close>: the
  \<^verbatim>\<open>int\<close> is converted, so the bit patterns are compared.\<close>

definition format_mismatch :: "env \<Rightarrow> u32 \<Rightarrow> u32 \<Rightarrow> sys \<Rightarrow> i32 \<times> sys" where
  "format_mismatch env cr ch s =
     (case config_build env cr ch s of
        (None, s1) \<Rightarrow> (0, s1)
      | (Some err, s1) \<Rightarrow>
          (- 1, emit (Ilog LOG_ERR (''Failed to initialize mixer: '' @ err)) (mix_shutdown s1)))"

definition mix_config :: "env \<Rightarrow> u32 \<Rightarrow> u32 \<Rightarrow> sys \<Rightarrow> i32 \<times> sys" where
  "mix_config env cr ch s =
     (if clockrate s \<noteq> cr then format_mismatch env cr ch s
      else if channels s \<noteq> ch then format_mismatch env cr ch s
      else (0, s))"

subsection \<open>mix\_resample\_frame\<close>

text \<open>The function returns a pointer: NULL, its argument, or \<^verbatim>\<open>mix->swr_frame\<close>. Its only
  call passes \<^verbatim>\<open>mix->sink_frame\<close>, so the argument is the frame \<open>frame\<close> behind that pointer
  and the result is \<open>None\<close> for NULL or says to which of the two frames of the session it
  points. The function itself does not return (\<open>None\<close>) when it uses a freed
  \<^verbatim>\<open>mix->swr_frame\<close>.\<close>

definition resample_err :: "string \<Rightarrow> sys \<Rightarrow> frame_ref option \<times> sys" where
  "resample_err err s = (None, emit (Ilog LOG_ERR (''Error resampling: '' @ err)) s)"

text \<open>The block that creates and opens the converter (taken when \<^verbatim>\<open>mix->avresample\<close> is
  NULL); the message of the failing step, if any.\<close>

definition resample_open :: "env \<Rightarrow> AVFrame \<Rightarrow> sys \<Rightarrow> string option \<times> sys" where
  "resample_open env frame s =
     (let c = avresample_alloc_context env (evs s);
          s1 = (emit (Avresample_alloc_context c) s)\<lparr>avresample := c\<rparr>
      in if c = None then (Some ''failed to alloc resample context'', s1)
      else
     (let lay = av_get_default_channel_layout env (channels s1);
          s2 = emit (Av_opt_set_int c ''out_sample_rate'' (scast (clockrate s1)))
              (emit (Av_opt_set_int c ''out_sample_fmt'' (scast AV_SAMPLE_FMT_S16))
              (emit (Av_opt_set_int c ''out_channel_layout'' lay)
              (emit (Av_opt_set_int c ''in_sample_rate'' (scast (clockrate s1)))
              (emit (Av_opt_set_int c ''in_sample_fmt'' (scast (format frame)))
              (emit (Av_opt_set_int c ''in_channel_layout'' lay) s1)))));
          r = avresample_open env (evs s2) c;
          s3 = emit (Avresample_open c r) s2
      in if r <s 0 then (Some ''failed to init resample context'', s3)
         else (None, s3)))"

text \<open>The block that replaces the conversion buffer (taken when there is none or it is
  too small). It starts with \<^verbatim>\<open>av_frame_free(&mix->swr_frame)\<close>, which frees a freed frame
  once more if the pointer was left dangling.\<close>

definition resample_buffer ::
  "env \<Rightarrow> AVFrame \<Rightarrow> i32 \<Rightarrow> sys \<Rightarrow> (string option \<times> sys) option" where
  "resample_buffer env frame dst_samples s =
     (if swr_frame s = Freed then None
      else Some
       (let s1 = (emit (Av_frame_free (pointee (swr_frame s))) s)\<lparr>swr_frame := Null\<rparr>;
            a = av_frame_alloc env (evs s1);
            s2 = (emit (Av_frame_alloc a) s1)\<lparr>swr_frame := allocated a\<rparr>
        in case a of
             None \<Rightarrow> (Some ''failed to alloc resampling frame'', s2)
           | Some f0 \<Rightarrow>
              (let f1 = (av_frame_copy_props env f0 frame)
                          \<lparr>format := format frame, nb_samples := dst_samples,
                           sample_rate := clockrate s2, channel_layout := channel_layout frame\<rparr>;
                   r = av_frame_get_buffer env (evs s2) f1;
                   s3 = (emit (Av_frame_get_buffer f1 (fst r)) s2)
                          \<lparr>swr_frame := Frame (if fst r <s 0 then f1
                                                else f1\<lparr>extended_data := snd r\<rparr>)\<rparr>
               in if fst r <s 0 then (Some ''failed to get resample buffers'', s3)
                  else (None, s3\<lparr>swr_buffers := dst_samples\<rparr>))))"

text \<open>The conversion itself, from \<^verbatim>\<open>mix->swr_frame->nb_samples = dst_samples\<close> on, which
  writes to the frame behind \<^verbatim>\<open>mix->swr_frame\<close>.\<close>

definition resample_convert ::
  "env \<Rightarrow> AVFrame \<Rightarrow> i32 \<Rightarrow> sys \<Rightarrow> (frame_ref option \<times> sys) option" where
  "resample_convert env frame dst_samples s =
     (case swr_frame s of
        Frame f \<Rightarrow>
         Some
          (let f1 = f\<lparr>nb_samples := dst_samples\<rparr>;
               r = avresample_convert env (evs s) (avresample s) f1 frame;
               s1 = (emit (Avresample_convert (avresample s) frame (fst r)) s)
                      \<lparr>swr_frame := Frame (f1\<lparr>extended_data := snd r\<rparr>)\<rparr>
           in if fst r <s 0 then resample_err ''failed to resample audio'' s1
              else
               (let f2 = f1\<lparr>extended_data := snd r, nb_samples := fst r,
                            pts := av_rescale env (pts frame)
                                     (scast (clockrate s1)) (scast (clockrate s1))\<rparr>
                in (Some To_swr_frame, s1\<lparr>swr_frame := Frame f2\<rparr>)))
      | _ \<Rightarrow> None)"

text \<open>The function from the computation of \<^verbatim>\<open>dst_samples\<close> on: the converter exists.\<close>

definition resample_sized :: "env \<Rightarrow> AVFrame \<Rightarrow> sys \<Rightarrow> (frame_ref option \<times> sys) option" where
  "resample_sized env frame s =
     (let dst_samples = avresample_available env (evs s) (avresample s)
            + ucast (av_rescale_rnd env
                       (scast (avresample_get_delay env (evs s) (avresample s)
                               + nb_samples frame))
                       (scast (clockrate s)) (scast (clockrate s)));
          r = (if swr_frame s = Null then resample_buffer env frame dst_samples s
               else if swr_buffers s <s dst_samples
                 then resample_buffer env frame dst_samples s
               else Some (None, s))
      in case r of
           None \<Rightarrow> None
         | Some (Some err, s1) \<Rightarrow> Some (resample_err err s1)
         | Some (None, s1) \<Rightarrow> resample_convert env frame dst_samples s1)"

definition mix_resample_frame :: "env \<Rightarrow> AVFrame \<Rightarrow> sys \<Rightarrow> (frame_ref option \<times> sys) option" where
  "mix_resample_frame env frame s =
     (if format frame = AV_SAMPLE_FMT_S16 then Some (Some To_sink_frame, s)
      else
       (let r = (if avresample s = None then resample_open env frame s else (None, s))
        in case fst r of
             Some err \<Rightarrow> Some (resample_err err (snd r))
           | None \<Rightarrow> resample_sized env frame (snd r)))"

subsection \<open>mix\_silence\_fill\_idx\_upto\<close>

text \<open>The block that creates the silence frame. \<open>None\<close>: \<^verbatim>\<open>av_frame_alloc\<close> gave NULL,
  which the code dereferences. Otherwise the frame to go on with, or no frame when the
  function returns because the buffers could not be had; the frame stays in the session
  in both cases.\<close>

definition silence_frame_init :: "env \<Rightarrow> u32 \<Rightarrow> sys \<Rightarrow> (AVFrame option \<times> sys) option" where
  "silence_frame_init env silence_samples s =
     (case av_frame_alloc env (evs s) of
        None \<Rightarrow> None
      | Some f0 \<Rightarrow>
         (let s1 = emit (Av_frame_alloc (Some f0)) s;
              f1 = f0\<lparr>format := AV_SAMPLE_FMT_S16,
                      channel_layout := av_get_default_channel_layout env (channels s1),
                      nb_samples := silence_samples,
                      sample_rate := clockrate s1\<rparr>;
              r = av_frame_get_buffer env (evs s1) f1;
              s2 = (emit (Av_frame_get_buffer f1 (fst r)) s1)\<lparr>silence_frame := Some f1\<rparr>
          in if fst r <s 0
             then Some (None, emit (Ilog LOG_ERR ''Failed to get silence frame buffers'') s2)
             else (let f2 = f1\<lparr>extended_data := replicate (length (snd r)) 0\<rparr>
                   in Some (Some f2, s2\<lparr>silence_frame := Some f2\<rparr>))))"

text \<open>The rest of the loop body: one chunk of silence. \<^verbatim>\<open>MIN\<close> compares in 64 bits
  unsigned; its value is stored in the \<^verbatim>\<open>int\<close> \<^verbatim>\<open>nb_samples\<close> and added back to the
  64-bit counter as a signed number.\<close>

definition silence_push :: "env \<Rightarrow> nat \<Rightarrow> u64 \<Rightarrow> u32 \<Rightarrow> AVFrame \<Rightarrow> sys \<Rightarrow> sys" where
  "silence_push env idx up_to silence_samples f s =
     (let f1 = f\<lparr>pts := in_pts s ! idx,
                  nb_samples := ucast (min (ucast silence_samples) (up_to - in_pts s ! idx))\<rparr>;
          s1 = s\<lparr>silence_frame := Some f1,
                 in_pts := (in_pts s)[idx := in_pts s ! idx + scast (nb_samples f1)]\<rparr>;
          r = av_buffersrc_write_frame env (evs s1) (src_ctxs s1 ! idx) f1;
          s2 = emit (Av_buffersrc_write_frame (src_ctxs s1 ! idx) f1 r) s1
      in if r \<noteq> 0 then emit (Ilog LOG_WARN ''Failed to write silence frame to buffer'') s2
         else s2)"

partial_function (option) silence_loop ::
  "env \<Rightarrow> nat \<Rightarrow> u64 \<Rightarrow> u32 \<Rightarrow> sys \<Rightarrow> sys option" where
  "silence_loop env idx up_to silence_samples s =
     (if in_pts s ! idx < up_to then
        (case silence_frame s of
           Some f \<Rightarrow>
             silence_loop env idx up_to silence_samples
               (silence_push env idx up_to silence_samples f s)
         | None \<Rightarrow>
            (case silence_frame_init env silence_samples s of
               None \<Rightarrow> None
             | Some (None, s1) \<Rightarrow> Some s1
             | Some (Some f, s1) \<Rightarrow>
                 silence_loop env idx up_to silence_samples
                   (silence_push env idx up_to silence_samples f s1)))
      else Some s)"

declare silence_loop.simps [code]

text \<open>\<^verbatim>\<open>mix->clockrate / 100\<close> is a division of \<^verbatim>\<open>int\<close>, rounding towards zero, stored
  in an \<^verbatim>\<open>unsigned int\<close>.\<close>

definition mix_silence_fill_idx_upto :: "env \<Rightarrow> nat \<Rightarrow> u64 \<Rightarrow> sys \<Rightarrow> sys option" where
  "mix_silence_fill_idx_upto env idx up_to s =
     silence_loop env idx up_to (word_of_int (sint (clockrate s) sdiv 100)) s"

subsection \<open>mix\_silence\_fill\<close>

fun silence_fill_inputs :: "env \<Rightarrow> nat list \<Rightarrow> sys \<Rightarrow> sys option" where
  "silence_fill_inputs env [] s = Some s"
| "silence_fill_inputs env (i # is) s =
     Option.bind (mix_silence_fill_idx_upto env i (out_pts s - scast (clockrate s)) s)
       (silence_fill_inputs env is)"

text \<open>\<^verbatim>\<open>mix->out_pts < mix->clockrate\<close> compares a \<^verbatim>\<open>uint64_t\<close> with an \<^verbatim>\<open>int\<close>: the
  \<^verbatim>\<open>int\<close> is sign-extended and read as unsigned.\<close>

definition mix_silence_fill :: "env \<Rightarrow> sys \<Rightarrow> sys option" where
  "mix_silence_fill env s =
     (if out_pts s < scast (clockrate s) then Some s
      else silence_fill_inputs env [0..<NUM_INPUTS] s)"

subsection \<open>mix\_add\<close>

text \<open>The label \<^verbatim>\<open>err\<close> of \<^verbatim>\<open>mix_add\<close>: the log entry and \<^verbatim>\<open>av_frame_free(&frame)\<close>;
  \<open>frame\<close> is the frame the variable \<^verbatim>\<open>frame\<close> points to, if it is not NULL.\<close>

definition mix_add_err :: "string \<Rightarrow> AVFrame option \<Rightarrow> sys \<Rightarrow> i32 \<times> sys" where
  "mix_add_err err frame s =
     (- 1, emit (Av_frame_free frame)
             (emit (Ilog LOG_ERR (''Failed to add frame to mixer: '' @ err)) s))"

text \<open>The frame the variable \<^verbatim>\<open>frame\<close> points to.\<close>

definition target :: "frame_ref option \<Rightarrow> sys \<Rightarrow> AVFrame option" where
  "target frame s =
     (case frame of
        None \<Rightarrow> None
      | Some To_sink_frame \<Rightarrow> pointee (sink_frame s)
      | Some To_swr_frame \<Rightarrow> pointee (swr_frame s))"

text \<open>The label \<^verbatim>\<open>err\<close> reached from the loop \<^verbatim>\<open>while (1)\<close>. There the variable \<^verbatim>\<open>frame\<close>
  is NULL or holds what \<^verbatim>\<open>mix_resample_frame\<close> returned in the pass before: the address of
  a frame of the session. \<^verbatim>\<open>av_frame_free(&frame)\<close> frees that frame and sets the variable
  to NULL; the pointer of the session keeps the address of the freed frame.\<close>

definition drain_err :: "frame_ref option \<Rightarrow> sys \<Rightarrow> i32 \<times> sys" where
  "drain_err frame s =
     (let r = mix_add_err ''failed to get frame from mixer'' (target frame s) s
      in (fst r,
          case frame of
            None \<Rightarrow> snd r
          | Some To_sink_frame \<Rightarrow> (snd r)\<lparr>sink_frame := Freed\<rparr>
          | Some To_swr_frame \<Rightarrow> (snd r)\<lparr>swr_frame := Freed\<rparr>))"

text \<open>The first statement of the loop \<^verbatim>\<open>while (1)\<close>: the result of
  \<^verbatim>\<open>av_buffersink_get_frame\<close>, which fills the frame behind \<^verbatim>\<open>mix->sink_frame\<close> when it
  succeeds.\<close>

definition drain_pull :: "env \<Rightarrow> sys \<Rightarrow> i32 \<times> sys" where
  "drain_pull env s =
     (let r = av_buffersink_get_frame env (evs s) (sink_ctx s)
      in (fst r,
          (emit (Av_buffersink_get_frame (sink_ctx s) (fst r)) s)
            \<lparr>sink_frame := (if fst r <s 0 then sink_frame s
                            else case sink_frame s of Frame g \<Rightarrow> Frame (snd r) | p \<Rightarrow> p)\<rparr>))"

text \<open>The statements after a successful pull: the frame \<open>f\<close> behind \<^verbatim>\<open>mix->sink_frame\<close> is
  converted, the result, NULL or not, goes to \<^verbatim>\<open>output_add\<close>, and the frame of the sink
  is released. The result of \<^verbatim>\<open>output_add\<close>, the new value of the variable \<^verbatim>\<open>frame\<close> and
  the session.\<close>

definition drain_forward ::
  "env \<Rightarrow> ptr option \<Rightarrow> AVFrame \<Rightarrow> sys \<Rightarrow> (i32 \<times> frame_ref option \<times> sys) option" where
  "drain_forward env output f s =
     (case mix_resample_frame env f s of
        None \<Rightarrow> None
      | Some (frame, s1) \<Rightarrow>
         Some
          (let ret = output_add env (evs s1) output (target frame s1);
               s2 = emit (Output_add output (target frame s1) ret) s1;
               s3 = (emit (Av_frame_unref (pointee (sink_frame s2))) s2)
                      \<lparr>sink_frame := (case sink_frame s2 of
                                        Frame g \<Rightarrow> Frame (av_frame_unref env g) | p \<Rightarrow> p)\<rparr>
           in (ret, frame, s3)))"

text \<open>The loop \<^verbatim>\<open>while (1)\<close>. A freed \<^verbatim>\<open>mix->sink_frame\<close> is handed to
  \<^verbatim>\<open>av_buffersink_get_frame\<close>, which writes to it. \<^verbatim>\<open>mix_resample_frame\<close> reads
  \<^verbatim>\<open>frame->format\<close> first, so a NULL \<^verbatim>\<open>mix->sink_frame\<close> is dereferenced there.\<close>

partial_function (option) mix_drain ::
  "env \<Rightarrow> ptr option \<Rightarrow> frame_ref option \<Rightarrow> sys \<Rightarrow> (i32 \<times> sys) option" where
  "mix_drain env output frame s =
     (if sink_frame s = Freed then None
      else
       (let p = drain_pull env s
        in if fst p <s 0 then
             (if fst p = AVERROR_EAGAIN then Some (0, snd p)
              else Some (drain_err frame (snd p)))
           else
             (case sink_frame (snd p) of
                Frame f \<Rightarrow>
                 (case drain_forward env output f (snd p) of
                    None \<Rightarrow> None
                  | Some w \<Rightarrow>
                     if fst w \<noteq> 0 then Some (- 1, snd (snd w))
                     else mix_drain env output (fst (snd w)) (snd (snd w)))
              | _ \<Rightarrow> None)))"

declare mix_drain.simps [code]

text \<open>The adjustment "for media started late": the offset of the input is computed if
  it has the value \<^verbatim>\<open>(uint64_t) -1LL\<close>, and added to the timestamp of the frame.
  \<^verbatim>\<open>frame->pts\<close> is an \<^verbatim>\<open>int64_t\<close>; the sums with the unsigned 64-bit counters are taken
  modulo \<open>2 ^ 64\<close>.\<close>

definition offset_adjust :: "AVFrame \<Rightarrow> nat \<Rightarrow> sys \<Rightarrow> AVFrame \<times> sys" where
  "offset_adjust frame i s =
     (let s1 = (if pts_offs s ! i = - 1
                then s\<lparr>pts_offs := (pts_offs s)[i := out_pts s - pts frame]\<rparr> else s)
      in (frame\<lparr>pts := pts frame + pts_offs s1 ! i\<rparr>, s1))"

text \<open>The update of the running counters.\<close>

definition update_counters :: "u64 \<Rightarrow> nat \<Rightarrow> sys \<Rightarrow> sys" where
  "update_counters next_pts i s =
     (let s1 = (if out_pts s < next_pts then s\<lparr>out_pts := next_pts\<rparr> else s)
      in if in_pts s1 ! i < next_pts then s1\<lparr>in_pts := (in_pts s1)[i := next_pts]\<rparr> else s1)"

text \<open>\<^verbatim>\<open>frame->nb_samples\<close> is an \<^verbatim>\<open>int\<close>, widened with its sign for the sum \<^verbatim>\<open>next_pts\<close>.
  Before the loop the variable \<^verbatim>\<open>frame\<close> holds the frame of the caller, which
  \<^verbatim>\<open>av_frame_free(&frame)\<close> frees after the mixer took it, leaving the variable NULL.\<close>

definition mix_add :: "env \<Rightarrow> AVFrame \<Rightarrow> u32 \<Rightarrow> ptr option \<Rightarrow> sys \<Rightarrow> (i32 \<times> sys) option" where
  "mix_add env frame idx output s =
     (if NUM_INPUTS \<le> unat idx then Some (mix_add_err ''index out of range'' (Some frame) s)
      else if src_ctxs s ! unat idx = None
        then Some (mix_add_err ''mixer not initialized'' (Some frame) s)
      else
       (let i = unat idx;
            a = offset_adjust frame i s;
            frame1 = fst a
        in Option.bind (mix_silence_fill_idx_upto env i (pts frame1) (snd a)) (\<lambda>s2.
            (let next_pts = pts frame1 + scast (nb_samples frame1);
                 r = av_buffersrc_add_frame env (evs s2) (src_ctxs s2 ! i) frame1;
                 s3 = emit (Av_buffersrc_add_frame (src_ctxs s2 ! i) frame1 r) s2
             in if r \<noteq> 0
                then Some (mix_add_err ''failed to add frame to mixer'' (Some frame1) s3)
                else Option.bind
                       (mix_silence_fill env
                          (emit (Av_frame_free (Some frame1)) (update_counters next_pts i s3)))
                       (mix_drain env output None)))))"

section \<open>Notions used in the statements\<close>

text \<open>Only the counter of one input, the silence frame and the history differ.\<close>

definition silence_rel :: "sys \<Rightarrow> sys \<Rightarrow> bool" where
  "silence_rel s s' \<longleftrightarrow>
     s' = s\<lparr>in_pts := in_pts s', silence_frame := silence_frame s', evs := evs s'\<rparr>"

text \<open>The events a silence fill can add to the history.\<close>

fun silence_event :: "event \<Rightarrow> bool" where
  "silence_event (Av_frame_alloc a) = True"
| "silence_event (Av_frame_get_buffer f r) = True"
| "silence_event (Ilog l m) = (l = LOG_WARN \<or> m = ''Failed to get silence frame buffers'')"
| "silence_event (Av_buffersrc_write_frame c f r) = True"
| "silence_event e = False"

definition buffers_failed :: event where
  "buffers_failed = Ilog LOG_ERR ''Failed to get silence frame buffers''"

text \<open>Every silence chunk written during \<open>new\<close> starts at or after \<open>lo\<close>, does not wrap
  around, and ends at or before \<open>hi\<close>.\<close>

definition writes_within :: "u64 \<Rightarrow> u64 \<Rightarrow> event list \<Rightarrow> bool" where
  "writes_within lo hi new \<longleftrightarrow>
     (\<forall>c f r. Av_buffersrc_write_frame c f r \<in> set new \<longrightarrow>
        lo \<le> pts f \<and> pts f \<le> pts f + scast (nb_samples f)
        \<and> pts f + scast (nb_samples f) \<le> hi)"

definition silence_post :: "nat \<Rightarrow> u64 \<Rightarrow> sys \<Rightarrow> sys \<Rightarrow> bool" where
  "silence_post idx up_to s s' \<longleftrightarrow>
     silence_rel s s' \<and> length (in_pts s') = length (in_pts s)
     \<and> (\<forall>j. j \<noteq> idx \<longrightarrow> in_pts s' ! j = in_pts s ! j)
     \<and> in_pts s ! idx \<le> in_pts s' ! idx
     \<and> in_pts s' ! idx \<le> max (in_pts s ! idx) up_to
     \<and> (\<exists>new. evs s' = new @ evs s \<and> (\<forall>e\<in>set new. silence_event e)
           \<and> (buffers_failed \<notin> set new \<longrightarrow> \<not> in_pts s' ! idx < up_to)
           \<and> writes_within (in_pts s ! idx) (in_pts s' ! idx) new)"

text \<open>The silence frames written during \<open>new\<close>, newest first.\<close>

fun written_frames :: "event list \<Rightarrow> AVFrame list" where
  "written_frames [] = []"
| "written_frames (Av_buffersrc_write_frame c f r # es) = f # written_frames es"
| "written_frames (e # es) = written_frames es"

text \<open>The start and the sample count of a frame, as natural numbers.\<close>

definition chunk_of :: "AVFrame \<Rightarrow> nat \<times> nat" where
  "chunk_of f = (unat (pts f), unat (nb_samples f))"

text \<open>Chunks of a fixed size that cover \<open>gap\<close> samples from \<open>start\<close> on, the last one cut
  so as to end at the target: the start and the sample count of each.\<close>

definition silence_chunks :: "nat \<Rightarrow> nat \<Rightarrow> nat \<Rightarrow> (nat \<times> nat) list" where
  "silence_chunks start gap sz =
     map (\<lambda>k. (start + k * sz, min sz (gap - k * sz))) [0..<(gap + sz - 1) div sz]"

text \<open>The frame \<open>f\<close> is a silence frame made for the session as it is configured now:
  the block that creates the silence frame, run at some point of the history with the
  clock rate and the channel count of \<open>s\<close>, got the buffers and left this frame, but for
  the timestamp and the sample count, which every chunk sets anew.\<close>

definition silence_made :: "env \<Rightarrow> sys \<Rightarrow> AVFrame \<Rightarrow> bool" where
  "silence_made env s f \<longleftrightarrow>
     (\<exists>h f' s1.
        silence_frame_init env (word_of_int (sint (clockrate s) sdiv 100)) (s\<lparr>evs := h\<rparr>)
          = Some (Some f', s1)
        \<and> f = f'\<lparr>pts := pts f, nb_samples := nb_samples f\<rparr>)"

text \<open>The silence frame of the session, if it has one, was made for the session as it is
  configured now; if it has none, it can be created with its buffers.\<close>

definition silence_ready :: "env \<Rightarrow> sys \<Rightarrow> bool" where
  "silence_ready env s =
     (case silence_frame s of
        Some f \<Rightarrow> silence_made env s f
      | None \<Rightarrow>
         (case silence_frame_init env (word_of_int (sint (clockrate s) sdiv 100)) s of
            Some (Some f, s1) \<Rightarrow> True
          | _ \<Rightarrow> False))"

text \<open>What a silence fill of one input leaves in every case: the counters of the other
  inputs are unchanged, and unless the buffers of the silence frame could not be had,
  the counter of the input is not behind the target.\<close>

definition silence_weak :: "nat \<Rightarrow> u64 \<Rightarrow> sys \<Rightarrow> sys \<Rightarrow> bool" where
  "silence_weak idx up_to s s' \<longleftrightarrow>
     silence_rel s s' \<and> length (in_pts s') = length (in_pts s)
     \<and> (\<forall>j. j \<noteq> idx \<longrightarrow> in_pts s' ! j = in_pts s ! j)
     \<and> (\<exists>new. evs s' = new @ evs s \<and> (\<forall>e\<in>set new. silence_event e)
           \<and> (buffers_failed \<notin> set new \<longrightarrow> \<not> in_pts s' ! idx < up_to))"

text \<open>Only the frame of the sink, the converter, its buffer and the history differ.\<close>

definition drain_rel :: "sys \<Rightarrow> sys \<Rightarrow> bool" where
  "drain_rel s s' \<longleftrightarrow>
     s' = s\<lparr>sink_frame := sink_frame s', avresample := avresample s',
            swr_frame := swr_frame s', swr_buffers := swr_buffers s', evs := evs s'\<rparr>"

text \<open>The output sink was called and reported a failure.\<close>

fun failed_output :: "event \<Rightarrow> bool" where
  "failed_output (Output_add out f r) = (r \<noteq> 0)"
| "failed_output e = False"

text \<open>The events the loop of \<^verbatim>\<open>mix_add\<close> can add to the history.\<close>

fun drain_event :: "event \<Rightarrow> bool" where
  "drain_event (Av_buffersrc_write_frame c f r) = False"
| "drain_event (Av_buffersrc_add_frame c f r) = False"
| "drain_event (Ilog l m) = (l = LOG_ERR \<and> m \<noteq> ''Failed to get silence frame buffers'')"
| "drain_event e = True"

text \<open>The session changed as the loop of \<^verbatim>\<open>mix_add\<close> changes it, without a failure of
  the output sink.\<close>

definition quiet :: "sys \<Rightarrow> sys \<Rightarrow> bool" where
  "quiet s s' \<longleftrightarrow>
     drain_rel s s'
     \<and> (\<exists>new. evs s' = new @ evs s \<and> (\<forall>x\<in>set new. drain_event x \<and> \<not> failed_output x))"

text \<open>What the loop of \<^verbatim>\<open>mix_add\<close> leaves when it returns \<open>r\<close>: if the output sink
  failed during the loop, the result is -1 and the failing call is the last but one
  event, followed only by the release of the sink's frame.\<close>

definition drain_post :: "i32 \<Rightarrow> sys \<Rightarrow> sys \<Rightarrow> bool" where
  "drain_post r s s' \<longleftrightarrow>
     drain_rel s s'
     \<and> (\<exists>new. evs s' = new @ evs s \<and> (\<forall>x\<in>set new. drain_event x)
           \<and> ((\<exists>x\<in>set new. failed_output x) \<longrightarrow>
                r = - 1
                \<and> (\<exists>u out f ret rest. new = Av_frame_unref u # Output_add out f ret # rest
                      \<and> ret \<noteq> 0 \<and> (\<forall>x\<in>set rest. \<not> failed_output x))))"

text \<open>The results of a call, when it returns.\<close>

definition ret_code :: "(i32 \<times> sys) option \<Rightarrow> i32 option" where
  "ret_code r = map_option fst r"

definition ret_sys :: "(i32 \<times> sys) option \<Rightarrow> sys option" where
  "ret_sys r = map_option snd r"

text \<open>The operations on a session, one step, and a sequence of steps. A step that does
  not return has no successor state.\<close>

datatype op = Config u32 u32 | Get_index | Add AVFrame u32 "ptr option"

fun step :: "env \<Rightarrow> op \<Rightarrow> sys \<Rightarrow> sys option" where
  "step env (Config cr ch) s = Some (snd (mix_config env cr ch s))"
| "step env Get_index s = Some (snd (mix_get_index s))"
| "step env (Add frame idx output) s = ret_sys (mix_add env frame idx output s)"

fun run :: "env \<Rightarrow> op list \<Rightarrow> sys \<Rightarrow> sys option" where
  "run env [] s = Some s"
| "run env (op # ops) s = Option.bind (step env op s) (run env ops)"

text \<open>A frame of the caller is handed to the mixer.\<close>

fun add_frame_event :: "event \<Rightarrow> bool" where
  "add_frame_event (Av_buffersrc_add_frame c f r) = True"
| "add_frame_event e = False"

text \<open>The part of a history, newest first, that follows the last hand-over of a frame
  to the mixer, and the part that precedes it.\<close>

definition since_add :: "event list \<Rightarrow> event list" where
  "since_add new = takeWhile (\<lambda>e. \<not> add_frame_event e) new"

definition before_add :: "event list \<Rightarrow> event list" where
  "before_add new = tl (dropWhile (\<lambda>e. \<not> add_frame_event e) new)"

text \<open>The events that an operation added to the history.\<close>

definition history_since :: "sys \<Rightarrow> sys \<Rightarrow> event list" where
  "history_since s s' = take (length (evs s') - length (evs s)) (evs s')"

text \<open>No counter of an input is more than the clock rate behind the output timestamp,
  once that is at least the clock rate. The comparison and the difference are those of
  \<^verbatim>\<open>mix_silence_fill\<close>: the clock rate is widened with its sign to 64 bits and taken
  as unsigned.\<close>

definition within_drift :: "sys \<Rightarrow> bool" where
  "within_drift s \<longleftrightarrow>
     (scast (clockrate s) \<le> out_pts s \<longrightarrow>
        (\<forall>i<NUM_INPUTS. out_pts s - scast (clockrate s) \<le> in_pts s ! i))"

text \<open>The counters of the inputs and the output timestamp.\<close>

definition timeline :: "sys \<Rightarrow> u64 list \<times> u64" where
  "timeline s = (in_pts s, out_pts s)"

text \<open>The session has a counter for each input, and one of them is at or beyond the
  output timestamp.\<close>

definition output_reached :: "sys \<Rightarrow> bool" where
  "output_reached s \<longleftrightarrow>
     length (in_pts s) = NUM_INPUTS \<and> (\<exists>i<NUM_INPUTS. out_pts s \<le> in_pts s ! i)"

text \<open>No counter of an input is beyond the output timestamp.\<close>

definition tracked_inputs :: "sys \<Rightarrow> bool" where
  "tracked_inputs s \<longleftrightarrow> (\<forall>i<NUM_INPUTS. in_pts s ! i \<le> out_pts s)"

text \<open>A frame handed to the mixer does not take the counter of its input beyond the
  output timestamp: it starts at or before the output timestamp \<open>out\<close> the call found,
  so that no silence is filled in beyond it; or the silence fill before it gave up for
  want of buffers (\<open>failed\<close>); or the mixer took the frame and the frame does not end
  before its start, so that the output timestamp follows to its end.\<close>

fun frame_keeps :: "u64 \<Rightarrow> bool \<Rightarrow> event \<Rightarrow> bool" where
  "frame_keeps out failed (Av_buffersrc_add_frame c f r) =
     (pts f \<le> out \<or> failed \<or> (r = 0 \<and> pts f \<le> pts f + scast (nb_samples f)))"
| "frame_keeps out failed e = True"

definition add_keeps :: "sys \<Rightarrow> sys \<Rightarrow> bool" where
  "add_keeps s s' =
     (let new = history_since s s'
      in list_all (frame_keeps (out_pts s) (buffers_failed \<in> set (before_add new))) new)"

text \<open>The end of a chunk: the value of the counter after it.\<close>

definition chunk_end :: "AVFrame \<Rightarrow> u64" where
  "chunk_end g = pts g + scast (nb_samples g)"

text \<open>No silence chunk written during the operation that took the session from \<open>s\<close> to
  \<open>s'\<close> ends beyond the output timestamp the operation left.\<close>

definition fills_within :: "sys \<Rightarrow> sys \<Rightarrow> bool" where
  "fills_within s s' =
     list_all (\<lambda>g. chunk_end g \<le> out_pts s') (written_frames (history_since s s'))"

text \<open>What an operation must satisfy for the output timestamp to stay the greatest
  counter; a sequence of operations each of which satisfies it; and a property that
  holds in every state a sequence of operations goes through.\<close>

fun keeps :: "op \<Rightarrow> sys \<Rightarrow> sys \<Rightarrow> bool" where
  "keeps (Add frame idx output) s s' = fills_within s s'"
| "keeps op s s' = True"

fun kept :: "env \<Rightarrow> op list \<Rightarrow> sys \<Rightarrow> bool" where
  "kept env [] s = True"
| "kept env (op # ops) s =
     (case step env op s of
        None \<Rightarrow> True
      | Some s' \<Rightarrow> keeps op s s' \<and> kept env ops s')"

fun always :: "(sys \<Rightarrow> bool) \<Rightarrow> env \<Rightarrow> op list \<Rightarrow> sys \<Rightarrow> bool" where
  "always P env [] s = P s"
| "always P env (op # ops) s =
     (P s \<and> (case step env op s of None \<Rightarrow> True | Some s' \<Rightarrow> always P env ops s'))"

text \<open>The output timestamp is the greatest counter of an input.\<close>

definition output_max :: "sys \<Rightarrow> bool" where
  "output_max s \<longleftrightarrow> out_pts s = Max (set (in_pts s))"

section \<open>Concrete collaborators and sessions\<close>

text \<open>An environment in which every external call succeeds and the mixer has no frame
  ready, and variations of it. They serve to run the model on concrete inputs. The
  buffer of a frame has two bytes for each sample and is not cleared.\<close>

definition frame0 :: AVFrame where
  "frame0 = \<lparr>format = - 1, pts = 0, nb_samples = 0, sample_rate = 0,
             channel_layout = 0, extended_data = []\<rparr>"

definition env_ok :: env where
  "env_ok =
     \<lparr>avfilter_graph_alloc = (\<lambda>h. Some 1),
      avfilter_get_by_name = (\<lambda>h n. Some 2),
      avfilter_graph_create_filter = (\<lambda>h flt args g. (0, Some 3)),
      avfilter_link = (\<lambda>h a i b j. 0),
      avfilter_graph_config = (\<lambda>h g. 0),
      av_get_sample_fmt_name = (\<lambda>f. ''s16''),
      av_get_default_channel_layout = (\<lambda>c. 4),
      av_frame_alloc = (\<lambda>h. Some frame0),
      av_frame_unref = (\<lambda>f. frame0),
      av_frame_copy_props = (\<lambda>d s. d\<lparr>pts := pts s\<rparr>),
      av_frame_get_buffer = (\<lambda>h f. (0, replicate (2 * unat (nb_samples f)) 255)),
      av_buffersrc_write_frame = (\<lambda>h c f. 0),
      av_buffersrc_add_frame = (\<lambda>h c f. 0),
      av_buffersink_get_frame = (\<lambda>h c. (AVERROR_EAGAIN, frame0)),
      output_add = (\<lambda>h out f. 0),
      avresample_alloc_context = (\<lambda>h. Some 5),
      avresample_open = (\<lambda>h c. 0),
      avresample_available = (\<lambda>h c. 0),
      avresample_get_delay = (\<lambda>h c. 0),
      avresample_convert = (\<lambda>h c d f. (nb_samples f, [])),
      av_rescale_rnd = (\<lambda>a b c. a),
      av_rescale = (\<lambda>a b c. a)\<rparr>"

text \<open>A new session configured with the given clock rate and one channel.\<close>

definition configured :: "env \<Rightarrow> u32 \<Rightarrow> sys" where
  "configured env cr = snd (mix_config env cr 1 (mix_new env))"

text \<open>A frame of signed 16-bit samples with the given timestamp and sample count.\<close>

definition pcm :: "i64 \<Rightarrow> i32 \<Rightarrow> AVFrame" where
  "pcm t n = \<lparr>format = AV_SAMPLE_FMT_S16, pts = t, nb_samples = n, sample_rate = 0,
              channel_layout = 4, extended_data = []\<rparr>"

text \<open>The graph cannot be allocated at the first attempt, and can from then on.\<close>

definition env_graph_retry :: env where
  "env_graph_retry =
     env_ok\<lparr>avfilter_graph_alloc :=
              (\<lambda>h. if Avfilter_graph_alloc None \<in> set h then Some 1 else None)\<rparr>"

text \<open>\<^verbatim>\<open>mix_get_index\<close> called \<open>n\<close> times in a row: the indices returned, in order, and
  the session after the last call.\<close>

fun get_indices :: "nat \<Rightarrow> sys \<Rightarrow> u32 list \<times> sys" where
  "get_indices 0 s = ([], s)"
| "get_indices (Suc n) s =
     (let r = mix_get_index s; rs = get_indices n (snd r) in (fst r # fst rs, snd rs))"

text \<open>The buffers of a frame cannot be had.\<close>

definition env_nobuf :: env where
  "env_nobuf = env_ok\<lparr>av_frame_get_buffer := (\<lambda>h f. (- 12, []))\<rparr>"

text \<open>Every write of a silence frame fails.\<close>

definition env_nowrite :: env where
  "env_nowrite = env_ok\<lparr>av_buffersrc_write_frame := (\<lambda>h c f. - 22)\<rparr>"

text \<open>Two silence fills of input 1 in a row, to the targets 3 and 5, while every write
  fails; and a silence frame as these fills write it.\<close>

definition fill_a :: sys where
  "fill_a = the (mix_silence_fill_idx_upto env_nowrite 1 3 (configured env_nowrite 200))"

definition fill_b :: sys where
  "fill_b = the (mix_silence_fill_idx_upto env_nowrite 1 5 fill_a)"

definition silence :: "i64 \<Rightarrow> i32 \<Rightarrow> AVFrame" where
  "silence t n = \<lparr>format = AV_SAMPLE_FMT_S16, pts = t, nb_samples = n, sample_rate = 200,
                  channel_layout = 4, extended_data = [0, 0, 0, 0]\<rparr>"

text \<open>A session at 200 Hz after a silence fill of input 1 to the target 5.\<close>

definition filled :: sys where
  "filled = the (mix_silence_fill_idx_upto env_ok 1 5 (configured env_ok 200))"

text \<open>A silence fill of input 0 after which the session is configured anew, at 8000 Hz.\<close>

definition refilled :: "sys option" where
  "refilled = map_option (\<lambda>s. snd (mix_config env_ok 8000 1 s))
     (mix_silence_fill_idx_upto env_ok 0 2 (configured env_ok 200))"

text \<open>The first submission to a session configured at 200 Hz: 204 samples on input 0, in
  the environment where all succeeds.\<close>

definition added :: sys where
  "added = snd (the (mix_add env_ok (pcm 0 204) 0 None (configured env_ok 200)))"

text \<open>The mixer has one frame ready, once, after a frame was handed to it; the output
  sink refuses every frame.\<close>

definition env_sink_fails :: env where
  "env_sink_fails =
     env_ok\<lparr>av_buffersink_get_frame :=
              (\<lambda>h c. if length (filter failed_output h) = 0 then (0, pcm 0 160)
                     else (AVERROR_EAGAIN, frame0)),
            output_add := (\<lambda>h out f. - 1)\<rparr>"

definition sunk :: sys where
  "sunk = snd (the (mix_add env_sink_fails (pcm 0 160) 0 None (configured env_sink_fails 8000)))"

text \<open>The mixer has one frame ready, once, and fails at the next pull with an error that
  is not \<^verbatim>\<open>EAGAIN\<close>; the session after a submission in this environment.\<close>

definition env_pull_fails :: env where
  "env_pull_fails =
     env_ok\<lparr>av_buffersink_get_frame :=
              (\<lambda>h c. if length (filter (\<lambda>e. case e of Output_add out f r \<Rightarrow> True | _ \<Rightarrow> False) h) = 0
                     then (0, pcm 0 160)
                     else (- 5, frame0))\<rparr>"

definition pulled :: "(i32 \<times> sys) option" where
  "pulled = mix_add env_pull_fails (pcm 0 160) 0 None (configured env_pull_fails 8000)"

text \<open>The mixer has one frame ready, once, which is not of signed 16-bit samples; no
  converter can be allocated.\<close>

definition env_no_resampler :: env where
  "env_no_resampler =
     env_ok\<lparr>av_buffersink_get_frame :=
              (\<lambda>h c. if length (filter (\<lambda>e. case e of Output_add out f r \<Rightarrow> True | _ \<Rightarrow> False) h) = 0
                     then (0, (pcm 0 160)\<lparr>format := 8\<rparr>)
                     else (AVERROR_EAGAIN, frame0)),
            avresample_alloc_context := (\<lambda>h. None)\<rparr>"

text \<open>The mixer takes the first frame handed to it and refuses every later one.\<close>

definition env_add_once :: env where
  "env_add_once =
     env_ok\<lparr>av_buffersrc_add_frame :=
              (\<lambda>h c f. if length (filter (\<lambda>e. case e of Av_buffersrc_add_frame c f r \<Rightarrow> True
                                                | _ \<Rightarrow> False) h) = 0
                       then 0 else - 1)\<rparr>"

text \<open>A session that took 300 samples on input 0 at 200 Hz and was then configured at
  100 Hz.\<close>

definition slowed :: "sys option" where
  "slowed = run env_add_once [Config 200 1, Add (pcm 0 300) 0 None, Config 100 1]
              (mix_new env_add_once)"

text \<open>Every frame gets a buffer of one sample, whatever it asks for; a session
  configured with the clock rate 4294967046, which is -250 as \<^verbatim>\<open>int\<close>, after a first
  submission on input 0, and after a second one that starts \<open>2 ^ 31 + 5\<close> samples after
  the end of the first.\<close>

definition env_tiny :: env where
  "env_tiny = env_ok\<lparr>av_frame_get_buffer := (\<lambda>h f. (0, [255, 255]))\<rparr>"

definition reversed :: "sys option" where
  "reversed = run env_tiny [Config 4294967046 1, Add (pcm 0 160) 0 None] (mix_new env_tiny)"

definition reversed2 :: "sys option" where
  "reversed2 = Option.bind reversed (step env_tiny (Add (pcm 2147483813 160) 0 None))"

text \<open>A new session after a configuration and one submission, and after one more
  submission.\<close>

definition tracked :: sys where
  "tracked = the (run env_ok [Config 200 1, Add (pcm 0 204) 0 None] (mix_new env_ok))"

definition tracked2 :: sys where
  "tracked2 = the (step env_ok (Add (pcm 0 10) 1 None) tracked)"

section \<open>The loop that drains the mixer\<close>

lemma drain_rel_iff:
  "drain_rel s s' \<longleftrightarrow> (\<exists>a b c d e. s' = s\<lparr>sink_frame := a, avresample := b,
      swr_frame := c, swr_buffers := d, evs := e\<rparr>)"
proof
  assume "drain_rel s s'"
  then show "\<exists>a b c d e. s' = s\<lparr>sink_frame := a, avresample := b,
      swr_frame := c, swr_buffers := d, evs := e\<rparr>"
    unfolding drain_rel_def by blast
next
  assume "\<exists>a b c d e. s' = s\<lparr>sink_frame := a, avresample := b,
      swr_frame := c, swr_buffers := d, evs := e\<rparr>"
  then obtain a b c d e where "s' = s\<lparr>sink_frame := a, avresample := b,
      swr_frame := c, swr_buffers := d, evs := e\<rparr>"
    by blast
  then show "drain_rel s s'"
    by (simp add: drain_rel_def)
qed

lemma drain_rel_refl: "drain_rel s s"
  by (simp add: drain_rel_def)

lemma drain_rel_trans: "drain_rel s t \<Longrightarrow> drain_rel t u \<Longrightarrow> drain_rel s u"
  by (clarsimp simp: drain_rel_iff) blast

lemma drain_rel_fields:
  assumes "drain_rel s s'"
  shows "clockrate s' = clockrate s" "channels s' = channels s" "out_pts s' = out_pts s"
    "pts_offs s' = pts_offs s" "src_ctxs s' = src_ctxs s" "next_idx s' = next_idx s"
    "graph s' = graph s" "amix_ctx s' = amix_ctx s" "sink_ctx s' = sink_ctx s"
    "in_pts s' = in_pts s" "silence_frame s' = silence_frame s"
  using assms by (auto simp: drain_rel_iff)

lemma resample_open_post:
  assumes "resample_open env frame s = (e, s')"
  shows "drain_rel s s' \<and> (\<exists>new. evs s' = new @ evs s
      \<and> (\<forall>x\<in>set new. drain_event x \<and> \<not> failed_output x))"
  using assms
  by (auto simp: resample_open_def Let_def emit_def drain_rel_def split: if_splits)

lemma resample_buffer_post:
  assumes "resample_buffer env frame n s = Some (e, s')"
  shows "drain_rel s s' \<and> (\<exists>new. evs s' = new @ evs s
      \<and> (\<forall>x\<in>set new. drain_event x \<and> \<not> failed_output x))"
  using assms
  by (auto simp: resample_buffer_def Let_def emit_def drain_rel_def
      split: if_splits option.splits)

lemma resample_err_post:
  assumes "resample_err err s = (fo, s')"
  shows "fo = None \<and> drain_rel s s' \<and> evs s' = [Ilog LOG_ERR (''Error resampling: '' @ err)] @ evs s"
  using assms by (auto simp: resample_err_def emit_def drain_rel_def)

lemma quiet_refl: "quiet s s"
  by (simp add: quiet_def drain_rel_refl)

lemma quiet_trans:
  assumes "quiet s t" and "quiet t u"
  shows "quiet s u"
proof -
  from assms obtain n1 n2 where "evs t = n1 @ evs s" "evs u = n2 @ evs t"
    and "\<forall>x\<in>set n1. drain_event x \<and> \<not> failed_output x"
    and "\<forall>x\<in>set n2. drain_event x \<and> \<not> failed_output x"
    unfolding quiet_def by blast
  then have "evs u = (n2 @ n1) @ evs s"
    and "\<forall>x\<in>set (n2 @ n1). drain_event x \<and> \<not> failed_output x"
    by auto
  moreover have "drain_rel s u"
    using assms drain_rel_trans unfolding quiet_def by blast
  ultimately show ?thesis
    unfolding quiet_def by blast
qed

lemma quiet_open: "quiet s (snd (resample_open env frame s))"
  using resample_open_post [of env frame s "fst (resample_open env frame s)"]
  by (simp add: quiet_def)

lemma quiet_buffer: "resample_buffer env frame n s = Some (e, s') \<Longrightarrow> quiet s s'"
  using resample_buffer_post [of env frame n s e s'] by (simp add: quiet_def)

lemma quiet_err: "quiet s (snd (resample_err err s))"
  using resample_err_post [of err s "fst (resample_err err s)"]
  by (simp add: quiet_def)

lemma quiet_convert:
  assumes "resample_convert env frame n s = Some (fo, s')"
  shows "quiet s s'"
proof -
  from assms obtain f where f: "swr_frame s = Frame f"
    by (cases "swr_frame s") (simp_all add: resample_convert_def)
  define r where "r = avresample_convert env (evs s) (avresample s) (f\<lparr>nb_samples := n\<rparr>) frame"
  define s1 where "s1 = (emit (Avresample_convert (avresample s) frame (fst r)) s)
      \<lparr>swr_frame := Frame (f\<lparr>nb_samples := n, extended_data := snd r\<rparr>)\<rparr>"
  have q1: "quiet s s1"
    by (simp add: s1_def quiet_def drain_rel_def emit_def)
  have "quiet s1 s'"
  proof (cases "fst r <s 0")
    case True
    with assms f have "s' = snd (resample_err ''failed to resample audio'' s1)"
      by (simp add: resample_convert_def Let_def r_def [symmetric] s1_def [symmetric])
    then show ?thesis by (simp add: quiet_err)
  next
    case False
    with assms f have "s' = s1\<lparr>swr_frame := Frame (f\<lparr>nb_samples := n, extended_data := snd r,
        nb_samples := fst r,
        pts := av_rescale env (pts frame) (scast (clockrate s1)) (scast (clockrate s1))\<rparr>)\<rparr>"
      by (auto simp: resample_convert_def Let_def r_def [symmetric] s1_def [symmetric])
    then show ?thesis by (simp add: quiet_def drain_rel_def)
  qed
  with q1 show ?thesis by (rule quiet_trans)
qed

lemma quiet_sized:
  assumes "resample_sized env frame s = Some (fo, s')"
  shows "quiet s s'"
proof -
  define n where "n = avresample_available env (evs s) (avresample s)
            + ucast (av_rescale_rnd env
                       (scast (avresample_get_delay env (evs s) (avresample s)
                               + nb_samples frame))
                       (scast (clockrate s)) (scast (clockrate s)))"
  define r where "r = (if swr_frame s = Null then resample_buffer env frame n s
               else if swr_buffers s <s n then resample_buffer env frame n s
               else Some (None, s))"
  have body: "(case r of None \<Rightarrow> None
         | Some (Some err, s1) \<Rightarrow> Some (resample_err err s1)
         | Some (None, s1) \<Rightarrow> resample_convert env frame n s1) = Some (fo, s')"
    using assms by (simp add: resample_sized_def Let_def n_def [symmetric] r_def [symmetric])
  then obtain e s1 where r: "r = Some (e, s1)"
    by (cases r) auto
  have q1: "quiet s s1"
    using r unfolding r_def by (auto simp: quiet_refl split: if_splits dest: quiet_buffer)
  have "quiet s1 s'"
  proof (cases e)
    case None
    with body r have "resample_convert env frame n s1 = Some (fo, s')" by simp
    then show ?thesis by (rule quiet_convert)
  next
    case (Some err)
    with body r have "s' = snd (resample_err err s1)" by auto
    then show ?thesis by (simp add: quiet_err)
  qed
  with q1 show ?thesis by (rule quiet_trans)
qed

lemma quiet_resample:
  assumes "mix_resample_frame env frame s = Some (fo, s')"
  shows "quiet s s'"
proof (cases "format frame = AV_SAMPLE_FMT_S16")
  case True
  with assms show ?thesis by (simp add: mix_resample_frame_def quiet_refl)
next
  case False
  define r where "r = (if avresample s = None then resample_open env frame s else (None, s))"
  have q1: "quiet s (snd r)"
    by (simp add: r_def quiet_open quiet_refl)
  have body: "(case fst r of Some err \<Rightarrow> Some (resample_err err (snd r))
           | None \<Rightarrow> resample_sized env frame (snd r)) = Some (fo, s')"
    using assms False by (simp add: mix_resample_frame_def Let_def r_def [symmetric])
  have "quiet (snd r) s'"
  proof (cases "fst r")
    case None
    with body have "resample_sized env frame (snd r) = Some (fo, s')" by simp
    then show ?thesis by (rule quiet_sized)
  next
    case (Some err)
    with body have "s' = snd (resample_err err (snd r))" by auto
    then show ?thesis by (simp add: quiet_err)
  qed
  with q1 show ?thesis by (rule quiet_trans)
qed

lemma quiet_imp_post: "quiet s s' \<Longrightarrow> drain_post r s s'"
  unfolding quiet_def drain_post_def by blast

lemma quiet_then_post:
  assumes "quiet s t" and "drain_post r t s'"
  shows "drain_post r s s'"
proof -
  from assms(1) obtain n1 where n1: "evs t = n1 @ evs s"
    "\<forall>x\<in>set n1. drain_event x \<and> \<not> failed_output x" and rel1: "drain_rel s t"
    unfolding quiet_def by blast
  from assms(2) obtain n2 where n2: "evs s' = n2 @ evs t" "\<forall>x\<in>set n2. drain_event x"
    and f2: "(\<exists>x\<in>set n2. failed_output x) \<longrightarrow> r = - 1
        \<and> (\<exists>u out f ret rest. n2 = Av_frame_unref u # Output_add out f ret # rest
              \<and> ret \<noteq> 0 \<and> (\<forall>x\<in>set rest. \<not> failed_output x))"
    and rel2: "drain_rel t s'"
    unfolding drain_post_def by blast
  have "drain_rel s s'"
    using rel1 rel2 by (rule drain_rel_trans)
  moreover have "evs s' = (n2 @ n1) @ evs s"
    using n1(1) n2(1) by simp
  moreover have "\<forall>x\<in>set (n2 @ n1). drain_event x"
    using n1(2) n2(2) by auto
  moreover have "(\<exists>x\<in>set (n2 @ n1). failed_output x) \<longrightarrow> r = - 1
        \<and> (\<exists>u out f ret rest. n2 @ n1 = Av_frame_unref u # Output_add out f ret # rest
              \<and> ret \<noteq> 0 \<and> (\<forall>x\<in>set rest. \<not> failed_output x))"
  proof
    assume "\<exists>x\<in>set (n2 @ n1). failed_output x"
    with n1(2) have "\<exists>x\<in>set n2. failed_output x" by auto
    with f2 obtain u out f ret rest where r: "r = - 1"
      and eq: "n2 = Av_frame_unref u # Output_add out f ret # rest" and ret: "ret \<noteq> 0"
      and rest: "\<forall>x\<in>set rest. \<not> failed_output x"
      by blast
    have "n2 @ n1 = Av_frame_unref u # Output_add out f ret # (rest @ n1)"
      using eq by simp
    moreover have "\<forall>x\<in>set (rest @ n1). \<not> failed_output x"
      using rest n1(2) by auto
    ultimately show "r = - 1
        \<and> (\<exists>u out f ret rest. n2 @ n1 = Av_frame_unref u # Output_add out f ret # rest
              \<and> ret \<noteq> 0 \<and> (\<forall>x\<in>set rest. \<not> failed_output x))"
      using r ret by blast
  qed
  ultimately show ?thesis
    unfolding drain_post_def by blast
qed

lemma quiet_drain_err: "quiet s (snd (drain_err frame s))"
proof (cases frame)
  case None
  then show ?thesis
    by (simp add: drain_err_def mix_add_err_def quiet_def drain_rel_def emit_def)
next
  case (Some a)
  then show ?thesis
    by (cases a) (simp_all add: drain_err_def mix_add_err_def quiet_def drain_rel_def emit_def)
qed

lemma drain_err_code: "fst (drain_err frame s) = - 1"
  by (simp add: drain_err_def mix_add_err_def Let_def)

lemma quiet_pull: "quiet s (snd (drain_pull env s))"
  by (simp add: drain_pull_def Let_def quiet_def drain_rel_def emit_def)

lemma drain_forward_post:
  assumes "drain_forward env outp f s = Some w"
  shows "if fst w = 0 then quiet s (snd (snd w)) else drain_post (- 1) s (snd (snd w))"
proof -
  from assms obtain fo s1 where rs: "mix_resample_frame env f s = Some (fo, s1)"
    by (cases "mix_resample_frame env f s") (auto simp: drain_forward_def)
  define ret where "ret = output_add env (evs s1) outp (target fo s1)"
  define s3 where "s3 = (emit (Av_frame_unref (pointee (sink_frame s1)))
        (emit (Output_add outp (target fo s1) ret) s1))
        \<lparr>sink_frame := (case sink_frame s1 of Frame g \<Rightarrow> Frame (av_frame_unref env g) | p \<Rightarrow> p)\<rparr>"
  have fw: "w = (ret, fo, s3)"
    using assms by (simp add: drain_forward_def rs Let_def ret_def s3_def emit_def)
  have q1: "quiet s s1"
    using rs by (rule quiet_resample)
  show ?thesis
  proof (cases "ret = 0")
    case True
    then have "quiet s1 s3"
      by (simp add: s3_def quiet_def drain_rel_def emit_def)
    with q1 have "quiet s s3" by (rule quiet_trans)
    with True show ?thesis by (simp add: fw)
  next
    case False
    from q1 obtain n where n: "evs s1 = n @ evs s"
      "\<forall>x\<in>set n. drain_event x \<and> \<not> failed_output x" and rel: "drain_rel s s1"
      unfolding quiet_def by blast
    have "drain_rel s1 s3"
      by (simp add: s3_def drain_rel_def emit_def)
    with rel have "drain_rel s s3" by (rule drain_rel_trans)
    moreover have "evs s3 = (Av_frame_unref (pointee (sink_frame s1))
        # Output_add outp (target fo s1) ret # n) @ evs s"
      by (simp add: s3_def emit_def n(1))
    moreover have "\<forall>x\<in>set (Av_frame_unref (pointee (sink_frame s1))
        # Output_add outp (target fo s1) ret # n). drain_event x"
      using n(2) by simp
    ultimately have "drain_post (- 1) s s3"
      unfolding drain_post_def using False n(2) by blast
    with False show ?thesis by (simp add: fw)
  qed
qed

lemma mix_drain_post:
  assumes run: "mix_drain env outp frame s = Some (r, s')"
  shows "drain_post r s s'"
proof -
  have "drain_post (fst (r, s')) s (snd (r, s'))"
  proof (rule mix_drain.raw_induct
    [where P = "\<lambda>env outp frame s y. drain_post (fst y) s (snd y)", OF _ run])
  fix drain :: "env \<Rightarrow> ptr option \<Rightarrow> frame_ref option \<Rightarrow> sys \<Rightarrow> (i32 \<times> sys) option"
    and env outp frame s y
  assume IH: "\<And>e out fr t y. drain e out fr t = Some y \<Longrightarrow> drain_post (fst y) t (snd y)"
    and body: "(if sink_frame s = Freed then None
      else
       (let p = drain_pull env s
        in if fst p <s 0 then
             (if fst p = AVERROR_EAGAIN then Some (0, snd p)
              else Some (drain_err frame (snd p)))
           else
             (case sink_frame (snd p) of
                Frame f \<Rightarrow>
                 (case drain_forward env outp f (snd p) of
                    None \<Rightarrow> None
                  | Some w \<Rightarrow>
                     if fst w \<noteq> 0 then Some (- 1, snd (snd w))
                     else drain env outp (fst (snd w)) (snd (snd w)))
              | _ \<Rightarrow> None))) = Some y"
  obtain r s' where y: "y = (r, s')" by (cases y)
  note body = body [unfolded y]
  define s1 where "s1 = snd (drain_pull env s)"
  have q1: "quiet s s1"
    by (simp add: s1_def quiet_pull)
  from body have nf: "sink_frame s \<noteq> Freed"
    by (auto split: if_splits)
  note body' = body [unfolded Let_def, folded s1_def]
  have "drain_post r s s'"
  proof (cases "fst (drain_pull env s) <s 0")
    case True
    with body' nf have "(r, s') = (0, s1) \<or> (r, s') = drain_err frame s1"
      by (auto split: if_splits)
    then have "s' = s1 \<or> s' = snd (drain_err frame s1)"
      by (metis snd_conv)
    then have "quiet s1 s'"
      using quiet_drain_err [of s1 frame] by (auto simp: quiet_refl)
    with q1 show ?thesis
      by (intro quiet_imp_post) (rule quiet_trans)
  next
    case False
    with body' nf obtain f where f: "sink_frame s1 = Frame f"
      by (cases "sink_frame s1") auto
    with body' nf False obtain w where w: "drain_forward env outp f s1 = Some w"
      by (cases "drain_forward env outp f s1") auto
    have res: "(if fst w \<noteq> 0 then Some (- 1, snd (snd w))
        else drain env outp (fst (snd w)) (snd (snd w))) = Some (r, s')"
      using body' nf False f w by simp
    note fw = drain_forward_post [OF w]
    show ?thesis
    proof (cases "fst w = 0")
      case True
      with res have "drain env outp (fst (snd w)) (snd (snd w)) = Some (r, s')" by simp
      from IH [OF this] have "drain_post r (snd (snd w)) s'" by simp
      moreover have "quiet s (snd (snd w))"
        using fw True q1 by (simp add: quiet_trans)
      ultimately show ?thesis by (rule quiet_then_post [rotated])
    next
      case False
      with res have "r = - 1" "s' = snd (snd w)" by simp_all
      with fw False have "drain_post r s1 s'" by simp
      with q1 show ?thesis by (rule quiet_then_post)
    qed
  qed
  then show "drain_post (fst y) s (snd y)" by (simp add: y)
  qed
  then show ?thesis by simp
qed

section \<open>Arithmetic of the chunk size\<close>

lemma scast_ucast_small:
  fixes c :: "64 word"
  assumes "c < 2 ^ 31"
  shows "(scast (ucast c :: 32 word) :: 64 word) = c"
proof -
  from assms have lt: "uint c < 2 ^ 31"
    by (simp add: word_less_def)
  have "sint (ucast c :: 32 word) = signed_take_bit 31 (uint c)"
    by (simp add: signed_ucast_eq)
  also have "\<dots> = uint c"
    using lt by (intro signed_take_bit_int_eq_self) (simp_all add: order_trans [of _ 0])
  finally show ?thesis
    by (simp add: scast_eq)
qed

lemma unat_ucast_32_64: "unat (ucast (ss :: 32 word) :: 64 word) = unat ss"
proof -
  have "unat ss < 2 ^ 32"
    using unsigned_less [of ss, where ?'a = nat] by simp
  then have "unat ss < (2::nat) ^ 64"
    by (rule less_trans) simp
  then show ?thesis
    by (simp add: unsigned_ucast_eq take_bit_nat_eq_self_iff)
qed

lemma chunk_small:
  fixes ss :: "32 word" and g :: "64 word"
  assumes "unat ss < 2 ^ 31"
  shows "min (ucast ss) g < 2 ^ 31"
proof -
  have "unat (min (ucast ss) g) \<le> unat (ucast ss :: 64 word)"
    by (simp add: word_le_nat_alt [symmetric])
  also have "\<dots> = unat ss" by (rule unat_ucast_32_64)
  finally show ?thesis using assms by (simp add: word_less_nat_alt)
qed

lemma word_add_gap:
  fixes a b c :: "64 word"
  shows "a < b \<Longrightarrow> c \<le> b - a \<Longrightarrow> a \<le> a + c \<and> a + c \<le> b"
  by (metis add.commute le_plus olen_add_eqv plus_minus_no_overflow_ab word_le_less_eq)


lemma sdiv_100_bounds:
  fixes k :: int
  assumes "- 100 < k"
  shows "0 \<le> k sdiv 100" and "k sdiv 100 \<le> max k 0" and "100 \<le> k \<Longrightarrow> 0 < k sdiv 100"
    and "0 \<le> k \<Longrightarrow> k sdiv 100 = k div 100"
proof -
  show nn: "0 \<le> k \<Longrightarrow> k sdiv 100 = k div 100"
    by (simp add: signed_divide_int_def sgn_if)
  show "0 \<le> k sdiv 100"
  proof (cases "0 \<le> k")
    case True
    with nn show ?thesis by simp
  next
    case False
    with assms have "\<bar>k\<bar> div 100 = 0" by simp
    then show ?thesis by (simp add: signed_divide_int_def)
  qed
  show "k sdiv 100 \<le> max k 0"
  proof (cases "0 \<le> k")
    case True
    then have "k div 100 \<le> k" by (simp add: div_le_dividend) 
    with nn True show ?thesis by simp
  next
    case False
    with assms have "\<bar>k\<bar> div 100 = 0" by simp
    then show ?thesis by (simp add: signed_divide_int_def)
  qed
  show "100 \<le> k \<Longrightarrow> 0 < k sdiv 100"
    using nn by (simp add: pos_imp_zdiv_pos_iff)
qed

lemma silence_samples_small:
  fixes cr :: "32 word"
  assumes "- 100 < sint cr"
  shows "unat (word_of_int (sint cr sdiv 100) :: 32 word) < 2 ^ 31"
    and "unat (word_of_int (sint cr sdiv 100) :: 32 word) = nat (sint cr sdiv 100)"
proof -
  let ?k = "sint cr sdiv 100"
  have "sint cr < 2 ^ 31" using sint_lt [of cr] by simp
  with sdiv_100_bounds(1,2) [OF assms] have b: "0 \<le> ?k" "?k < 2 ^ 31"
    by (simp_all add: max_def split: if_splits)
  then have "?k < 2 ^ 32" by simp
  with b(1) have "uint (word_of_int ?k :: 32 word) = ?k"
    by (simp add: uint_word_of_int take_bit_int_eq_self)
  then show eq: "unat (word_of_int ?k :: 32 word) = nat ?k"
    by (simp only: unat_eq_nat_uint)
  show "unat (word_of_int ?k :: 32 word) < 2 ^ 31"
    using b by (simp add: eq nat_less_iff)
qed

section \<open>The silence loop\<close>

lemma silence_rel_iff:
  "silence_rel s s' \<longleftrightarrow> (\<exists>a b c. s' = s\<lparr>in_pts := a, silence_frame := b, evs := c\<rparr>)"
proof
  assume "silence_rel s s'"
  then show "\<exists>a b c. s' = s\<lparr>in_pts := a, silence_frame := b, evs := c\<rparr>"
    unfolding silence_rel_def by blast
next
  assume "\<exists>a b c. s' = s\<lparr>in_pts := a, silence_frame := b, evs := c\<rparr>"
  then obtain a b c where "s' = s\<lparr>in_pts := a, silence_frame := b, evs := c\<rparr>"
    by blast
  then show "silence_rel s s'"
    by (simp add: silence_rel_def)
qed

lemma silence_rel_refl: "silence_rel s s"
  by (simp add: silence_rel_def)

lemma silence_rel_trans: "silence_rel s t \<Longrightarrow> silence_rel t u \<Longrightarrow> silence_rel s u"
  by (clarsimp simp: silence_rel_iff) blast

lemma silence_rel_fields:
  assumes "silence_rel s s'"
  shows "clockrate s' = clockrate s" "channels s' = channels s" "out_pts s' = out_pts s"
    "pts_offs s' = pts_offs s" "src_ctxs s' = src_ctxs s" "next_idx s' = next_idx s"
    "graph s' = graph s" "amix_ctx s' = amix_ctx s" "sink_ctx s' = sink_ctx s"
    "sink_frame s' = sink_frame s" "avresample s' = avresample s"
    "swr_frame s' = swr_frame s" "swr_buffers s' = swr_buffers s"
  using assms by (auto simp: silence_rel_iff)

lemma silence_frame_init_Some:
  assumes "silence_frame_init env ss s = Some (fo, s1)"
  shows "silence_rel s s1 \<and> in_pts s1 = in_pts s \<and> silence_frame s1 \<noteq> None
    \<and> (\<forall>f. fo = Some f \<longrightarrow> silence_frame s1 = Some f \<and> set (extended_data f) \<subseteq> {0})
    \<and> (\<exists>new. evs s1 = new @ evs s \<and> (\<forall>e\<in>set new. silence_event e)
          \<and> (\<forall>c f r. Av_buffersrc_write_frame c f r \<notin> set new)
          \<and> (buffers_failed \<in> set new \<longleftrightarrow> fo = None))"
  using assms
  by (auto simp: silence_frame_init_def Let_def emit_def silence_rel_def buffers_failed_def
      split: option.splits if_splits)

lemma silence_made_init:
  assumes "silence_frame_init env (word_of_int (sint (clockrate s) sdiv 100)) s = Some (Some f, s1)"
  shows "silence_made env s f"
proof -
  have "s\<lparr>evs := evs s\<rparr> = s" by simp
  with assms have "silence_frame_init env (word_of_int (sint (clockrate s) sdiv 100))
      (s\<lparr>evs := evs s\<rparr>) = Some (Some f, s1)"
    by simp
  moreover have "f = f\<lparr>pts := pts f, nb_samples := nb_samples f\<rparr>" by simp
  ultimately show ?thesis
    unfolding silence_made_def by blast
qed

lemma silence_made_fields:
  assumes "silence_made env s f"
  shows "format f = AV_SAMPLE_FMT_S16" "sample_rate f = clockrate s"
    "channel_layout f = av_get_default_channel_layout env (channels s)"
    "set (extended_data f) \<subseteq> {0}"
proof -
  from assms obtain h f' s1 where
    init: "silence_frame_init env (word_of_int (sint (clockrate s) sdiv 100)) (s\<lparr>evs := h\<rparr>)
      = Some (Some f', s1)"
    and f: "f = f'\<lparr>pts := pts f, nb_samples := nb_samples f\<rparr>"
    unfolding silence_made_def by blast
  from init have "format f' = AV_SAMPLE_FMT_S16 \<and> sample_rate f' = clockrate s
      \<and> channel_layout f' = av_get_default_channel_layout env (channels s)
      \<and> set (extended_data f') \<subseteq> {0}"
    by (auto simp: silence_frame_init_def Let_def emit_def split: option.splits if_splits)
  moreover have "format f = format f'" "sample_rate f = sample_rate f'"
    "channel_layout f = channel_layout f'" "extended_data f = extended_data f'"
    by (subst f, simp)+
  ultimately show "format f = AV_SAMPLE_FMT_S16" "sample_rate f = clockrate s"
    "channel_layout f = av_get_default_channel_layout env (channels s)"
    "set (extended_data f) \<subseteq> {0}"
    by simp_all
qed

lemma silence_frame_init_frame:
  assumes "evs t = evs s" and "clockrate t = clockrate s" and "channels t = channels s"
  shows "map_option fst (silence_frame_init env ss t) = map_option fst (silence_frame_init env ss s)"
  using assms by (simp add: silence_frame_init_def Let_def emit_def split: option.splits)

lemma silence_made_later:
  assumes made: "silence_made env s f"
    and same: "clockrate t = clockrate s" "channels t = channels s"
    and g: "g = f\<lparr>pts := pts g, nb_samples := nb_samples g\<rparr>"
  shows "silence_made env t g"
proof -
  let ?ss = "word_of_int (sint (clockrate s) sdiv 100) :: u32"
  from made obtain h f' s1 where
    init: "silence_frame_init env ?ss (s\<lparr>evs := h\<rparr>) = Some (Some f', s1)"
    and f: "f = f'\<lparr>pts := pts f, nb_samples := nb_samples f\<rparr>"
    unfolding silence_made_def by blast
  have "map_option fst (silence_frame_init env ?ss (t\<lparr>evs := h\<rparr>))
      = map_option fst (silence_frame_init env ?ss (s\<lparr>evs := h\<rparr>))"
    using same by (intro silence_frame_init_frame) simp_all
  with init obtain s2 where "silence_frame_init env ?ss (t\<lparr>evs := h\<rparr>) = Some (Some f', s2)"
    by (cases "silence_frame_init env ?ss (t\<lparr>evs := h\<rparr>)") auto
  moreover have "g = f'\<lparr>pts := pts g, nb_samples := nb_samples g\<rparr>"
    by (subst g, subst f) simp
  ultimately show ?thesis
    unfolding silence_made_def same by blast
qed

lemma silence_push_props:
  fixes ss :: "32 word" and env :: env and f :: AVFrame and s :: sys and idx :: nat and up_to :: u64
  assumes lt: "in_pts s ! idx < up_to" and small: "unat ss < 2 ^ 31"
    and len: "idx < length (in_pts s)"
  defines "s' \<equiv> silence_push env idx up_to ss f s"
  shows "silence_rel s s'"
    and "in_pts s' = (in_pts s)[idx := in_pts s ! idx + min (ucast ss) (up_to - in_pts s ! idx)]"
    and "in_pts s ! idx \<le> in_pts s' ! idx" and "in_pts s' ! idx \<le> up_to"
    and "\<exists>r f1 w. evs s' = w @ Av_buffersrc_write_frame (src_ctxs s ! idx) f1 r # evs s
          \<and> (w = [] \<or> w = [Ilog LOG_WARN ''Failed to write silence frame to buffer''])
          \<and> f1 = f\<lparr>pts := in_pts s ! idx, nb_samples := ucast (min (ucast ss) (up_to - in_pts s ! idx))\<rparr>
          \<and> silence_frame s' = Some f1"
proof -
  let ?c = "min (ucast ss) (up_to - in_pts s ! idx)"
  have c: "(scast (ucast ?c :: 32 word) :: 64 word) = ?c"
    by (rule scast_ucast_small) (rule chunk_small [OF small])
  show "silence_rel s s'"
    by (simp add: s'_def silence_push_def Let_def emit_def silence_rel_def)
  show eq: "in_pts s' = (in_pts s)[idx := in_pts s ! idx + ?c]"
    by (simp add: s'_def silence_push_def Let_def emit_def c)
  have "in_pts s ! idx \<le> in_pts s ! idx + ?c \<and> in_pts s ! idx + ?c \<le> up_to"
    by (rule word_add_gap [OF lt]) simp
  then show "in_pts s ! idx \<le> in_pts s' ! idx" and "in_pts s' ! idx \<le> up_to"
    using len by (simp_all add: eq)
  show "\<exists>r f1 w. evs s' = w @ Av_buffersrc_write_frame (src_ctxs s ! idx) f1 r # evs s
          \<and> (w = [] \<or> w = [Ilog LOG_WARN ''Failed to write silence frame to buffer''])
          \<and> f1 = f\<lparr>pts := in_pts s ! idx, nb_samples := ucast (min (ucast ss) (up_to - in_pts s ! idx))\<rparr>
          \<and> silence_frame s' = Some f1"
    by (simp add: s'_def silence_push_def Let_def emit_def)
qed


lemma silence_post_done: "\<not> in_pts s ! idx < up_to \<Longrightarrow> silence_post idx up_to s s"
  by (simp add: silence_post_def silence_rel_refl writes_within_def)

lemma silence_post_early:
  assumes "silence_frame_init env ss s = Some (None, s1)"
  shows "silence_post idx up_to s s1"
proof -
  from silence_frame_init_Some [OF assms]
  obtain new where rel: "silence_rel s s1" and inp: "in_pts s1 = in_pts s"
    and new: "evs s1 = new @ evs s" "\<forall>e\<in>set new. silence_event e"
      "\<forall>c f r. Av_buffersrc_write_frame c f r \<notin> set new" "buffers_failed \<in> set new"
    by auto
  show ?thesis
    unfolding silence_post_def writes_within_def using rel inp new by auto
qed

lemma silence_post_step:
  fixes ss :: "32 word"
  assumes lt: "in_pts s ! idx < up_to" and small: "unat ss < 2 ^ 31"
    and len: "idx < length (in_pts s)"
    and s1: "s1 = s \<or> (\<exists>fo. silence_frame_init env ss s = Some (fo, s1))"
    and post: "silence_post idx up_to (silence_push env idx up_to ss f s1) s'"
  shows "silence_post idx up_to s s'"
proof -
  let ?s2 = "silence_push env idx up_to ss f s1"
  from s1 obtain new1 where rel1: "silence_rel s s1" and inp1: "in_pts s1 = in_pts s"
    and new1: "evs s1 = new1 @ evs s" "\<forall>e\<in>set new1. silence_event e"
      "\<forall>c f r. Av_buffersrc_write_frame c f r \<notin> set new1"
  proof
    assume "s1 = s"
    then show ?thesis using that [of "[]"] by (simp add: silence_rel_refl)
  next
    assume "\<exists>fo. silence_frame_init env ss s = Some (fo, s1)"
    then obtain fo where "silence_frame_init env ss s = Some (fo, s1)" by blast
    from silence_frame_init_Some [OF this] show ?thesis using that by auto
  qed
  have lt1: "in_pts s1 ! idx < up_to" and len1: "idx < length (in_pts s1)"
    using lt len inp1 by simp_all
  note push = silence_push_props [OF lt1 small len1, of env f]
  from push(5) obtain r f1 w where
    ev2: "evs ?s2 = w @ Av_buffersrc_write_frame (src_ctxs s1 ! idx) f1 r # evs s1"
    and w: "w = [] \<or> w = [Ilog LOG_WARN ''Failed to write silence frame to buffer'']"
    and f1: "f1 = f\<lparr>pts := in_pts s1 ! idx,
               nb_samples := ucast (min (ucast ss) (up_to - in_pts s1 ! idx))\<rparr>"
    by blast
  let ?c = "min (ucast ss) (up_to - in_pts s1 ! idx)"
  have c: "(scast (ucast ?c :: 32 word) :: 64 word) = ?c"
    by (rule scast_ucast_small) (rule chunk_small [OF small])
  have in2: "in_pts ?s2 ! idx = in_pts s ! idx + ?c"
    using push(2) len1 inp1 by simp
  have le2: "in_pts s ! idx \<le> in_pts ?s2 ! idx" "in_pts ?s2 ! idx \<le> up_to"
    using push(3,4) inp1 by simp_all
  have other2: "j \<noteq> idx \<Longrightarrow> in_pts ?s2 ! j = in_pts s ! j" for j
    using push(2) inp1 by simp
  have len2: "length (in_pts ?s2) = length (in_pts s)"
    using push(2) inp1 by simp
  from post obtain new2 where rel2: "silence_rel ?s2 s'"
    and len': "length (in_pts s') = length (in_pts ?s2)"
    and other': "\<forall>j. j \<noteq> idx \<longrightarrow> in_pts s' ! j = in_pts ?s2 ! j"
    and lo': "in_pts ?s2 ! idx \<le> in_pts s' ! idx"
    and hi': "in_pts s' ! idx \<le> max (in_pts ?s2 ! idx) up_to"
    and new2: "evs s' = new2 @ evs ?s2" "\<forall>e\<in>set new2. silence_event e"
      "buffers_failed \<notin> set new2 \<longrightarrow> \<not> in_pts s' ! idx < up_to"
      "writes_within (in_pts ?s2 ! idx) (in_pts s' ! idx) new2"
    unfolding silence_post_def by blast
  let ?new = "new2 @ w @ Av_buffersrc_write_frame (src_ctxs s1 ! idx) f1 r # new1"
  have "silence_rel s s'"
    by (rule silence_rel_trans [OF silence_rel_trans [OF rel1 push(1)] rel2])
  moreover have "length (in_pts s') = length (in_pts s)"
    using len' len2 by simp
  moreover have "\<forall>j. j \<noteq> idx \<longrightarrow> in_pts s' ! j = in_pts s ! j"
    using other' other2 by simp
  moreover have "in_pts s ! idx \<le> in_pts s' ! idx"
    using le2(1) lo' by (rule order_trans)
  moreover have "in_pts s' ! idx \<le> max (in_pts s ! idx) up_to"
  proof -
    have "max (in_pts ?s2 ! idx) up_to = up_to"
      using le2(2) by (rule max_absorb2)
    moreover have "max (in_pts s ! idx) up_to = up_to"
      using lt by (intro max_absorb2) simp
    ultimately show ?thesis using hi' by simp
  qed
  moreover have "evs s' = ?new @ evs s"
    using new2(1) ev2 new1(1) by simp
  moreover have "\<forall>e\<in>set ?new. silence_event e"
    using new2(2) new1(2) w by auto
  moreover have "buffers_failed \<notin> set ?new \<longrightarrow> \<not> in_pts s' ! idx < up_to"
    using new2(3) by simp
  moreover have "writes_within (in_pts s ! idx) (in_pts s' ! idx) ?new"
    unfolding writes_within_def
  proof (intro allI impI)
    fix c0 g r0
    assume "Av_buffersrc_write_frame c0 g r0 \<in> set ?new"
    then consider "Av_buffersrc_write_frame c0 g r0 \<in> set new2" | "g = f1"
      using w new1(3) by auto
    then show "in_pts s ! idx \<le> pts g \<and> pts g \<le> pts g + scast (nb_samples g)
        \<and> pts g + scast (nb_samples g) \<le> in_pts s' ! idx"
    proof cases
      case 1
      with new2(4) have "in_pts ?s2 ! idx \<le> pts g" "pts g \<le> pts g + scast (nb_samples g)"
        "pts g + scast (nb_samples g) \<le> in_pts s' ! idx"
        unfolding writes_within_def by blast+
      with le2(1) show ?thesis by auto
    next
      case 2
      then have "pts g = in_pts s ! idx" "pts g + scast (nb_samples g) = in_pts ?s2 ! idx"
        using f1 c in2 inp1 by simp_all
      with le2(1) lo' show ?thesis by simp
    qed
  qed
  ultimately show ?thesis
    unfolding silence_post_def by blast
qed

lemma silence_loop_post:
  fixes ss :: "32 word"
  assumes run: "silence_loop env idx up_to ss s = Some s'"
  shows "idx < length (in_pts s) \<longrightarrow> unat ss < 2 ^ 31 \<longrightarrow> silence_post idx up_to s s'"
proof (rule silence_loop.raw_induct
    [where P = "\<lambda>env idx up_to ss s s'.
       idx < length (in_pts s) \<longrightarrow> unat ss < 2 ^ 31 \<longrightarrow> silence_post idx up_to s s'",
     OF _ run])
  fix loop :: "env \<Rightarrow> nat \<Rightarrow> u64 \<Rightarrow> u32 \<Rightarrow> sys \<Rightarrow> sys option"
    and env idx up_to and ss :: "32 word" and s s'
  assume IH: "\<And>e i u c t y. loop e i u c t = Some y \<Longrightarrow>
      i < length (in_pts t) \<longrightarrow> unat c < 2 ^ 31 \<longrightarrow> silence_post i u t y"
    and body: "(if in_pts s ! idx < up_to then
        (case silence_frame s of
           None \<Rightarrow>
            (case silence_frame_init env ss s of
               None \<Rightarrow> None
             | Some (None, s1) \<Rightarrow> Some s1
             | Some (Some f, s1) \<Rightarrow> loop env idx up_to ss (silence_push env idx up_to ss f s1))
         | Some f \<Rightarrow> loop env idx up_to ss (silence_push env idx up_to ss f s))
      else Some s) = Some s'"
  show "idx < length (in_pts s) \<longrightarrow> unat ss < 2 ^ 31 \<longrightarrow> silence_post idx up_to s s'"
  proof (intro impI)
    assume len: "idx < length (in_pts s)" and small: "unat ss < 2 ^ 31"
    show "silence_post idx up_to s s'"
    proof (cases "in_pts s ! idx < up_to")
      case False
      with body show ?thesis by (simp add: silence_post_done)
    next
      case lt: True
      show ?thesis
      proof (cases "silence_frame s")
        case (Some f)
        with body lt have "loop env idx up_to ss (silence_push env idx up_to ss f s) = Some s'"
          by simp
        from IH [OF this] have "silence_post idx up_to (silence_push env idx up_to ss f s) s'"
          using silence_push_props(2) [OF lt small len, of env f] len small by simp
        then show ?thesis
          by (rule silence_post_step [OF lt small len disjI1 [OF refl]])
      next
        case None
        show ?thesis
        proof (cases "silence_frame_init env ss s")
          case n: None
          with body lt None show ?thesis by simp
        next
          case (Some p)
          obtain fo s1 where p: "p = (fo, s1)" by (cases p)
          note init = silence_frame_init_Some [OF Some [unfolded p]]
          show ?thesis
          proof (cases fo)
            case n: None
            with body lt None Some p have "s' = s1" by simp
            with Some p n show ?thesis by (simp add: silence_post_early)
          next
            case f: (Some f)
            with body lt None Some p
            have run: "loop env idx up_to ss (silence_push env idx up_to ss f s1) = Some s'"
              by simp
            have lt1: "in_pts s1 ! idx < up_to" and len1: "idx < length (in_pts s1)"
              using init lt len by simp_all
            from IH [OF run]
            have "silence_post idx up_to (silence_push env idx up_to ss f s1) s'"
              using silence_push_props(2) [OF lt1 small len1, of env f] len1 small by simp
            moreover have "s1 = s \<or> (\<exists>fo. silence_frame_init env ss s = Some (fo, s1))"
              using Some p by blast
            ultimately show ?thesis
              by (rule silence_post_step [OF lt small len, rotated])
          qed
        qed
      qed
    qed
  qed
qed

section \<open>The chunks of a silence fill\<close>

lemma written_frames_append:
  "written_frames (a @ b) = written_frames a @ written_frames b"
  by (induction a rule: written_frames.induct) simp_all

lemma silence_chunks_zero: "0 < sz \<Longrightarrow> silence_chunks start 0 sz = []"
  by (simp add: silence_chunks_def)

lemma silence_chunks_step:
  assumes "0 < sz" "0 < gap"
  shows "silence_chunks start gap sz =
    (start, min sz gap) # silence_chunks (start + min sz gap) (gap - min sz gap) sz"
proof (cases "gap \<le> sz")
  case True
  with assms have "(gap + sz - 1) div sz = 1"
    by (intro div_nat_eqI) simp_all
  with True assms show ?thesis
    by (simp add: silence_chunks_def min_absorb2)
next
  case False
  then have gt: "sz < gap" by simp
  define m where "m = (gap - sz + sz - 1) div sz"
  define F where "F = (\<lambda>k. (start + k * sz, min sz (gap - k * sz)))"
  define G where "G = (\<lambda>k. (start + sz + k * sz, min sz (gap - sz - k * sz)))"
  have "gap + sz - 1 = (gap - sz + sz - 1) + sz"
    using gt assms by simp
  then have n: "(gap + sz - 1) div sz = Suc m"
    using assms unfolding m_def by (metis div_add_self2 Suc_eq_plus1 less_numeral_extra(3))
  have lhs: "silence_chunks start gap sz = map F [0..<Suc m]"
    by (simp only: silence_chunks_def n F_def)
  have rhs: "silence_chunks (start + sz) (gap - sz) sz = map G [0..<m]"
    by (simp only: silence_chunks_def m_def G_def)
  have "map F [0..<Suc m] = F 0 # map F (map Suc [0..<m])"
    by (simp only: upt_conv_Cons [of 0 "Suc m", OF zero_less_Suc] map_Suc_upt list.map)
  moreover have "F 0 = (start, sz)"
    using gt by (simp add: F_def)
  moreover have "F (Suc k) = G k" for k
    by (simp add: F_def G_def diff_diff_left add.assoc)
  ultimately have "map F [0..<Suc m] = (start, sz) # map G [0..<m]"
    by simp
  moreover have "min sz gap = sz"
    using gt by simp
  ultimately show ?thesis
    by (simp only: lhs rhs)
qed

lemma unat_min: "unat (min a b) = min (unat a) (unat (b :: 'a :: len word))"
  by (simp add: min_def word_le_nat_alt)

lemma unat_ucast_small:
  fixes c :: "64 word"
  assumes "c < 2 ^ 31"
  shows "unat (ucast c :: 32 word) = unat c"
proof -
  from assms have "unat c < 2 ^ 31" by (simp add: word_less_nat_alt)
  then have "unat c < (2::nat) ^ 32" by (rule less_trans) simp
  then show ?thesis
    by (simp add: unsigned_ucast_eq take_bit_nat_eq_self_iff)
qed

lemma step_measure:
  fixes a b c :: "64 word"
  assumes "a < b" "c \<le> b - a"
  shows "unat (a + c) = unat a + unat c" and "unat (b - (a + c)) = unat (b - a) - unat c"
    and "unat (b - a) = unat b - unat a" and "0 < unat (b - a)"
proof -
  from word_add_gap [OF assms] have le: "a \<le> a + c" "a + c \<le> b" by simp_all
  show 1: "unat (a + c) = unat a + unat c"
    using le(1) by (simp add: unat_plus_simple)
  show 3: "unat (b - a) = unat b - unat a"
    using assms(1) by (simp add: unat_sub)
  show "unat (b - (a + c)) = unat (b - a) - unat c"
    using le(2) by (simp add: unat_sub 1 3)
  show "0 < unat (b - a)"
    using assms(1) by (simp add: 3 word_less_nat_alt)
qed

lemma silence_loop_total:
  fixes ss :: "32 word"
  assumes "silence_frame s = Some f"
    and "idx < length (in_pts s)" and "0 < unat ss" and "unat ss < 2 ^ 31"
  shows "\<exists>s'. silence_loop env idx up_to ss s = Some s'
      \<and> in_pts s' = (in_pts s)[idx := max (in_pts s ! idx) up_to]
      \<and> (\<exists>new. evs s' = new @ evs s
            \<and> map chunk_of (rev (written_frames new)) =
                (if in_pts s ! idx < up_to
                 then silence_chunks (unat (in_pts s ! idx)) (unat (up_to - in_pts s ! idx)) (unat ss)
                 else [])
            \<and> (\<forall>g\<in>set (written_frames new). g = f\<lparr>pts := pts g, nb_samples := nb_samples g\<rparr>)
            \<and> (\<forall>c g r. Av_buffersrc_write_frame c g r \<in> set new \<longrightarrow> c = src_ctxs s ! idx))
      \<and> (\<exists>g. silence_frame s' = Some g \<and> g = f\<lparr>pts := pts g, nb_samples := nb_samples g\<rparr>)"
  using assms
proof (induction "unat (up_to - in_pts s ! idx)" arbitrary: s f rule: less_induct)
  case less
  note sf = less.prems(1) and len = less.prems(2)
    and pos = less.prems(3) and small = less.prems(4)
  show ?case
  proof (cases "in_pts s ! idx < up_to")
    case False
    then have "silence_loop env idx up_to ss s = Some s"
      by (subst silence_loop.simps) simp
    moreover have "(in_pts s)[idx := max (in_pts s ! idx) up_to] = in_pts s"
      using False by (simp add: max_absorb1)
    moreover have "f = f\<lparr>pts := pts f, nb_samples := nb_samples f\<rparr>"
      by simp
    ultimately show ?thesis using False sf by simp
  next
    case lt: True
    let ?a = "in_pts s ! idx"
    let ?c = "min (ucast ss) (up_to - ?a)"
    let ?s2 = "silence_push env idx up_to ss f s"
    have run: "silence_loop env idx up_to ss s = silence_loop env idx up_to ss ?s2"
      using lt sf by (subst silence_loop.simps) simp
    note push = silence_push_props [OF lt small len, of env f]
    from push(5) obtain r f1 w where
      ev2: "evs ?s2 = w @ Av_buffersrc_write_frame (src_ctxs s ! idx) f1 r # evs s"
      and w: "w = [] \<or> w = [Ilog LOG_WARN ''Failed to write silence frame to buffer'']"
      and f1: "f1 = f\<lparr>pts := ?a, nb_samples := ucast ?c\<rparr>"
      and sf2: "silence_frame ?s2 = Some f1"
      by blast
    have csmall: "?c < 2 ^ 31" by (rule chunk_small [OF small])
    have cle: "?c \<le> up_to - ?a" by simp
    note meas = step_measure [OF lt cle]
    have uc: "unat ?c = min (unat ss) (unat (up_to - ?a))"
      by (simp add: unat_min unat_ucast_32_64)
    have cpos: "0 < unat ?c"
      using pos meas(4) by (simp add: uc)
    have in2: "in_pts ?s2 ! idx = ?a + ?c"
      using push(2) len by simp
    have len2: "idx < length (in_pts ?s2)"
      using push(2) len by simp
    have dec: "unat (up_to - in_pts ?s2 ! idx) < unat (up_to - ?a)"
      using meas(2,4) cpos by (simp add: in2)
    from less.hyps [OF dec sf2 len2 pos small]
    obtain s' new2 where loop2: "silence_loop env idx up_to ss ?s2 = Some s'"
      and in': "in_pts s' = (in_pts ?s2)[idx := max (in_pts ?s2 ! idx) up_to]"
      and ev': "evs s' = new2 @ evs ?s2"
      and ch': "map chunk_of (rev (written_frames new2)) =
                (if in_pts ?s2 ! idx < up_to
                 then silence_chunks (unat (in_pts ?s2 ! idx)) (unat (up_to - in_pts ?s2 ! idx)) (unat ss)
                 else [])"
      and z': "\<forall>g\<in>set (written_frames new2). g = f1\<lparr>pts := pts g, nb_samples := nb_samples g\<rparr>"
      and c': "\<forall>c g r. Av_buffersrc_write_frame c g r \<in> set new2 \<longrightarrow> c = src_ctxs ?s2 ! idx"
      and t': "\<exists>g. silence_frame s' = Some g \<and> g = f1\<lparr>pts := pts g, nb_samples := nb_samples g\<rparr>"
      by blast
    let ?new = "new2 @ w @ [Av_buffersrc_write_frame (src_ctxs s ! idx) f1 r]"
    have wf_w: "written_frames w = []"
      using w by auto
    have wf_new: "rev (written_frames ?new) = f1 # rev (written_frames new2)"
      by (simp add: written_frames_append wf_w)
    have src2: "src_ctxs ?s2 = src_ctxs s"
      using silence_rel_fields(5) [OF push(1)] .
    have max2: "max (in_pts ?s2 ! idx) up_to = up_to" "max ?a up_to = up_to"
      using push(4) lt by (simp_all add: max_absorb2)
    have "in_pts s' = (in_pts ?s2)[idx := up_to]"
      using in' by (simp only: max2(1))
    then have "in_pts s' = (in_pts s)[idx := max ?a up_to]"
      by (simp only: push(2) list_update_overwrite max2(2))
    moreover have "evs s' = ?new @ evs s"
      using ev' ev2 by simp
    moreover have "map chunk_of (rev (written_frames ?new)) =
        silence_chunks (unat ?a) (unat (up_to - ?a)) (unat ss)"
    proof -
      have f1c: "chunk_of f1 = (unat ?a, min (unat ss) (unat (up_to - ?a)))"
        by (simp add: chunk_of_def f1 unat_ucast_small [OF csmall] uc)
      have rest: "map chunk_of (rev (written_frames new2)) =
          silence_chunks (unat ?a + min (unat ss) (unat (up_to - ?a)))
            (unat (up_to - ?a) - min (unat ss) (unat (up_to - ?a))) (unat ss)"
      proof (cases "in_pts ?s2 ! idx < up_to")
        case True
        then show ?thesis
          using ch' meas(1,2) by (simp add: in2 uc)
      next
        case False
        with push(4) have "in_pts ?s2 ! idx = up_to" by simp
        then have "unat (up_to - ?a) - unat ?c = 0"
          using meas(2) by (simp add: in2)
        with False ch' pos show ?thesis
          by (simp add: uc silence_chunks_zero)
      qed
      show ?thesis
        by (simp only: wf_new list.map f1c rest silence_chunks_step [OF pos meas(4), symmetric])
    qed
    moreover have "\<forall>g\<in>set (written_frames ?new). g = f\<lparr>pts := pts g, nb_samples := nb_samples g\<rparr>"
    proof
      fix g
      assume "g \<in> set (written_frames ?new)"
      then consider "g = f1" | "g \<in> set (written_frames new2)"
        by (auto simp: written_frames_append wf_w)
      then show "g = f\<lparr>pts := pts g, nb_samples := nb_samples g\<rparr>"
      proof cases
        case 1
        then show ?thesis by (simp add: f1)
      next
        case 2
        with z' have "g = f1\<lparr>pts := pts g, nb_samples := nb_samples g\<rparr>" by blast
        then show ?thesis by (simp add: f1)
      qed
    qed
    moreover have "\<forall>c g r. Av_buffersrc_write_frame c g r \<in> set ?new \<longrightarrow> c = src_ctxs s ! idx"
      using c' w by (auto simp: src2)
    moreover have "\<exists>g. silence_frame s' = Some g \<and> g = f\<lparr>pts := pts g, nb_samples := nb_samples g\<rparr>"
    proof -
      from t' obtain g where g: "silence_frame s' = Some g"
        "g = f1\<lparr>pts := pts g, nb_samples := nb_samples g\<rparr>"
        by blast
      from g(2) have "g = f\<lparr>pts := pts g, nb_samples := nb_samples g\<rparr>"
        by (simp add: f1)
      with g(1) show ?thesis by blast
    qed
    ultimately show ?thesis
      using lt loop2 by (simp only: run if_True) blast
  qed
qed

section \<open>What every silence fill leaves\<close>

lemma silence_weak_done: "\<not> in_pts s ! idx < up_to \<Longrightarrow> silence_weak idx up_to s s"
  by (simp add: silence_weak_def silence_rel_refl)

lemma silence_weak_early:
  assumes "silence_frame_init env ss s = Some (None, s1)"
  shows "silence_weak idx up_to s s1"
  using silence_frame_init_Some [OF assms] unfolding silence_weak_def by auto

lemma silence_weak_trans:
  assumes "silence_weak idx up_to s t" and "silence_weak idx up_to t u"
  shows "silence_weak idx up_to s u"
proof -
  from assms obtain n1 n2 where "evs t = n1 @ evs s" "evs u = n2 @ evs t"
    and "\<forall>e\<in>set n1. silence_event e" "\<forall>e\<in>set n2. silence_event e"
    and "buffers_failed \<notin> set n2 \<longrightarrow> \<not> in_pts u ! idx < up_to"
    unfolding silence_weak_def by blast
  then have "evs u = (n2 @ n1) @ evs s" "\<forall>e\<in>set (n2 @ n1). silence_event e"
    "buffers_failed \<notin> set (n2 @ n1) \<longrightarrow> \<not> in_pts u ! idx < up_to"
    by auto
  moreover have "silence_rel s u" "length (in_pts u) = length (in_pts s)"
    "\<forall>j. j \<noteq> idx \<longrightarrow> in_pts u ! j = in_pts s ! j"
    using assms silence_rel_trans unfolding silence_weak_def by auto
  ultimately show ?thesis
    unfolding silence_weak_def by blast
qed

text \<open>A step that changes the session as a fill does, without the failure of the
  buffers, followed by a fill.\<close>

lemma silence_weak_step:
  assumes rel: "silence_rel s t" and len: "length (in_pts t) = length (in_pts s)"
    and other: "\<forall>j. j \<noteq> idx \<longrightarrow> in_pts t ! j = in_pts s ! j"
    and ev: "evs t = n @ evs s" "\<forall>e\<in>set n. silence_event e"
    and rest: "silence_weak idx up_to t u"
  shows "silence_weak idx up_to s u"
proof -
  from rest obtain n2 where "evs u = n2 @ evs t" "\<forall>e\<in>set n2. silence_event e"
    "buffers_failed \<notin> set n2 \<longrightarrow> \<not> in_pts u ! idx < up_to"
    unfolding silence_weak_def by blast
  with ev have "evs u = (n2 @ n) @ evs s" "\<forall>e\<in>set (n2 @ n). silence_event e"
    "buffers_failed \<notin> set (n2 @ n) \<longrightarrow> \<not> in_pts u ! idx < up_to"
    by auto
  moreover have "silence_rel s u" "length (in_pts u) = length (in_pts s)"
    "\<forall>j. j \<noteq> idx \<longrightarrow> in_pts u ! j = in_pts s ! j"
    using rest rel len other silence_rel_trans unfolding silence_weak_def by auto
  ultimately show ?thesis
    unfolding silence_weak_def by blast
qed

lemma silence_push_weak:
  "silence_rel s (silence_push env idx up_to ss f s)
   \<and> length (in_pts (silence_push env idx up_to ss f s)) = length (in_pts s)
   \<and> (\<forall>j. j \<noteq> idx \<longrightarrow> in_pts (silence_push env idx up_to ss f s) ! j = in_pts s ! j)
   \<and> (\<exists>n. evs (silence_push env idx up_to ss f s) = n @ evs s \<and> (\<forall>e\<in>set n. silence_event e))"
  by (simp add: silence_push_def Let_def emit_def silence_rel_def)

lemma silence_loop_weak:
  assumes run: "silence_loop env idx up_to ss s = Some s'"
  shows "silence_weak idx up_to s s'"
proof (rule silence_loop.raw_induct
    [where P = "\<lambda>env idx up_to ss s s'. silence_weak idx up_to s s'", OF _ run])
  fix loop :: "env \<Rightarrow> nat \<Rightarrow> u64 \<Rightarrow> u32 \<Rightarrow> sys \<Rightarrow> sys option"
    and env idx up_to and ss :: "32 word" and s s'
  assume IH: "\<And>e i u c t y. loop e i u c t = Some y \<Longrightarrow> silence_weak i u t y"
    and body: "(if in_pts s ! idx < up_to then
        (case silence_frame s of
           None \<Rightarrow>
            (case silence_frame_init env ss s of
               None \<Rightarrow> None
             | Some (None, s1) \<Rightarrow> Some s1
             | Some (Some f, s1) \<Rightarrow> loop env idx up_to ss (silence_push env idx up_to ss f s1))
         | Some f \<Rightarrow> loop env idx up_to ss (silence_push env idx up_to ss f s))
      else Some s) = Some s'"
  show "silence_weak idx up_to s s'"
  proof (cases "in_pts s ! idx < up_to")
    case False
    with body show ?thesis by (simp add: silence_weak_done)
  next
    case lt: True
    show ?thesis
    proof (cases "silence_frame s")
      case (Some f)
      with body lt have "loop env idx up_to ss (silence_push env idx up_to ss f s) = Some s'"
        by simp
      from IH [OF this] silence_push_weak [of s env idx up_to ss f] show ?thesis
        by (blast intro: silence_weak_step)
    next
      case None
      show ?thesis
      proof (cases "silence_frame_init env ss s")
        case n: None
        with body lt None show ?thesis by simp
      next
        case (Some p)
        obtain fo s1 where p: "p = (fo, s1)" by (cases p)
        note init = silence_frame_init_Some [OF Some [unfolded p]]
        show ?thesis
        proof (cases fo)
          case n: None
          with body lt None Some p have "s' = s1" by simp
          with Some p n show ?thesis by (simp add: silence_weak_early)
        next
          case f: (Some f)
          with body lt None Some p
          have "loop env idx up_to ss (silence_push env idx up_to ss f s1) = Some s'"
            by simp
          from IH [OF this] silence_push_weak [of s1 env idx up_to ss f]
          have "silence_weak idx up_to s1 s'"
            by (blast intro: silence_weak_step)
          moreover from init obtain n where "silence_rel s s1" "in_pts s1 = in_pts s"
            "evs s1 = n @ evs s" "\<forall>e\<in>set n. silence_event e"
            by blast
          ultimately show ?thesis
            by (intro silence_weak_step [of s s1 idx n up_to s']) simp_all
        qed
      qed
    qed
  qed
qed

section \<open>The silence fill of all inputs\<close>

lemma mix_silence_fill_idx_upto_weak:
  "mix_silence_fill_idx_upto env idx up_to s = Some s' \<Longrightarrow> silence_weak idx up_to s s'"
  unfolding mix_silence_fill_idx_upto_def by (rule silence_loop_weak)

lemma mix_silence_fill_idx_upto_post:
  assumes "mix_silence_fill_idx_upto env idx up_to s = Some s'"
    and "idx < length (in_pts s)" and "- 100 < sint (clockrate s)"
  shows "silence_post idx up_to s s'"
  using silence_loop_post [OF assms(1) [unfolded mix_silence_fill_idx_upto_def]]
    assms(2) silence_samples_small(1) [OF assms(3)] by simp

lemma fill_inputs_weak:
  assumes "silence_fill_inputs env is s = Some s'" and "distinct is"
  shows "silence_rel s s' \<and> length (in_pts s') = length (in_pts s)
    \<and> (\<forall>j. j \<notin> set is \<longrightarrow> in_pts s' ! j = in_pts s ! j)
    \<and> (\<exists>new. evs s' = new @ evs s \<and> (\<forall>e\<in>set new. silence_event e)
          \<and> (buffers_failed \<notin> set new \<longrightarrow>
               (\<forall>i\<in>set is. \<not> in_pts s' ! i < out_pts s - scast (clockrate s))))"
  using assms
proof (induction "is" arbitrary: s)
  case Nil
  then show ?case by (simp add: silence_rel_refl)
next
  case (Cons i "is")
  let ?T = "out_pts s - scast (clockrate s)"
  from Cons.prems(1) obtain s1 where
    one: "mix_silence_fill_idx_upto env i ?T s = Some s1"
    and rest: "silence_fill_inputs env is s1 = Some s'"
    by (auto simp: bind_eq_Some_conv)
  from mix_silence_fill_idx_upto_weak [OF one] obtain n1 where
    rel1: "silence_rel s s1" and len1: "length (in_pts s1) = length (in_pts s)"
    and oth1: "\<forall>j. j \<noteq> i \<longrightarrow> in_pts s1 ! j = in_pts s ! j"
    and ev1: "evs s1 = n1 @ evs s" "\<forall>e\<in>set n1. silence_event e"
    and tgt1: "buffers_failed \<notin> set n1 \<longrightarrow> \<not> in_pts s1 ! i < ?T"
    unfolding silence_weak_def by blast
  have T1: "out_pts s1 - scast (clockrate s1) = ?T"
    using silence_rel_fields(1,3) [OF rel1] by simp
  from Cons.prems(2) have d: "distinct is" and ni: "i \<notin> set is" by simp_all
  from Cons.IH [OF rest d] obtain n2 where
    rel2: "silence_rel s1 s'" and len2: "length (in_pts s') = length (in_pts s1)"
    and oth2: "\<forall>j. j \<notin> set is \<longrightarrow> in_pts s' ! j = in_pts s1 ! j"
    and ev2: "evs s' = n2 @ evs s1" "\<forall>e\<in>set n2. silence_event e"
    and tgt2: "buffers_failed \<notin> set n2 \<longrightarrow> (\<forall>k\<in>set is. \<not> in_pts s' ! k < ?T)"
    unfolding T1 by blast
  have "silence_rel s s'"
    using rel1 rel2 by (rule silence_rel_trans)
  moreover have "length (in_pts s') = length (in_pts s)"
    using len1 len2 by simp
  moreover have "\<forall>j. j \<notin> set (i # is) \<longrightarrow> in_pts s' ! j = in_pts s ! j"
    using oth1 oth2 by simp
  moreover have "evs s' = (n2 @ n1) @ evs s"
    using ev1(1) ev2(1) by simp
  moreover have "\<forall>e\<in>set (n2 @ n1). silence_event e"
    using ev1(2) ev2(2) by auto
  moreover have "buffers_failed \<notin> set (n2 @ n1) \<longrightarrow>
      (\<forall>k\<in>set (i # is). \<not> in_pts s' ! k < ?T)"
    using tgt1 tgt2 oth2 ni by auto
  ultimately show ?case by blast
qed

lemma fill_inputs_bounds:
  assumes "silence_fill_inputs env is s = Some s'"
    and "\<forall>i\<in>set is. i < length (in_pts s)" and "- 100 < sint (clockrate s)"
  shows "\<forall>j. in_pts s ! j \<le> in_pts s' ! j
    \<and> in_pts s' ! j \<le> max (in_pts s ! j) (out_pts s - scast (clockrate s))"
  using assms
proof (induction "is" arbitrary: s)
  case Nil
  then show ?case by simp
next
  case (Cons i "is")
  let ?T = "out_pts s - scast (clockrate s)"
  from Cons.prems(1) obtain s1 where
    one: "mix_silence_fill_idx_upto env i ?T s = Some s1"
    and rest: "silence_fill_inputs env is s1 = Some s'"
    by (auto simp: bind_eq_Some_conv)
  from Cons.prems(2) have i: "i < length (in_pts s)" by simp
  from mix_silence_fill_idx_upto_post [OF one i Cons.prems(3)]
  have rel1: "silence_rel s s1" and len1: "length (in_pts s1) = length (in_pts s)"
    and oth1: "\<forall>j. j \<noteq> i \<longrightarrow> in_pts s1 ! j = in_pts s ! j"
    and lo1: "in_pts s ! i \<le> in_pts s1 ! i" and hi1: "in_pts s1 ! i \<le> max (in_pts s ! i) ?T"
    unfolding silence_post_def by blast+
  have f1: "out_pts s1 = out_pts s" "clockrate s1 = clockrate s"
    using silence_rel_fields(1,3) [OF rel1] by simp_all
  have b1: "in_pts s ! j \<le> in_pts s1 ! j \<and> in_pts s1 ! j \<le> max (in_pts s ! j) ?T" for j
    using oth1 lo1 hi1 by (cases "j = i") simp_all
  have "\<forall>k\<in>set is. k < length (in_pts s1)"
    using Cons.prems(2) len1 by simp
  from Cons.IH [OF rest this] Cons.prems(3)
  have b2: "in_pts s1 ! j \<le> in_pts s' ! j \<and> in_pts s' ! j \<le> max (in_pts s1 ! j) ?T" for j
    by (simp add: f1)
  show ?case
  proof
    fix j
    from b1 [of j] b2 [of j]
    show "in_pts s ! j \<le> in_pts s' ! j \<and> in_pts s' ! j \<le> max (in_pts s ! j) ?T"
      by (auto simp: max_def split: if_splits)
  qed
qed

lemma mix_silence_fill_weak:
  assumes "mix_silence_fill env s = Some s'"
  shows "silence_rel s s' \<and> length (in_pts s') = length (in_pts s)
    \<and> (\<exists>new. evs s' = new @ evs s \<and> (\<forall>e\<in>set new. silence_event e)
          \<and> (buffers_failed \<notin> set new \<longrightarrow> scast (clockrate s) \<le> out_pts s \<longrightarrow>
               (\<forall>i<NUM_INPUTS. \<not> in_pts s' ! i < out_pts s - scast (clockrate s))))"
proof (cases "out_pts s < scast (clockrate s)")
  case True
  with assms have "s' = s" by (simp add: mix_silence_fill_def)
  with True show ?thesis by (auto simp: silence_rel_refl)
next
  case False
  with assms have "silence_fill_inputs env [0..<NUM_INPUTS] s = Some s'"
    by (simp add: mix_silence_fill_def)
  from fill_inputs_weak [OF this] show ?thesis by auto
qed

lemma mix_silence_fill_bounds:
  assumes "mix_silence_fill env s = Some s'"
    and "length (in_pts s) = NUM_INPUTS" and "- 100 < sint (clockrate s)"
  shows "in_pts s ! j \<le> in_pts s' ! j \<and> in_pts s' ! j \<le> max (in_pts s ! j) (out_pts s)"
proof (cases "out_pts s < scast (clockrate s)")
  case True
  with assms have "s' = s" by (simp add: mix_silence_fill_def)
  then show ?thesis by simp
next
  case False
  with assms have "silence_fill_inputs env [0..<NUM_INPUTS] s = Some s'"
    by (simp add: mix_silence_fill_def)
  from fill_inputs_bounds [OF this _ assms(3)] assms(2)
  have b: "in_pts s ! j \<le> in_pts s' ! j"
    "in_pts s' ! j \<le> max (in_pts s ! j) (out_pts s - scast (clockrate s))"
    by simp_all
  from False have "out_pts s - scast (clockrate s) \<le> out_pts s"
    by (simp add: word_sub_le)
  with b show ?thesis
    by (auto simp: max_def split: if_splits)
qed

section \<open>The paths through mix\_add\<close>

lemma offset_adjust_fields:
  assumes "offset_adjust frame i s = (frame1, s1)"
  shows "evs s1 = evs s" "in_pts s1 = in_pts s" "out_pts s1 = out_pts s"
    "clockrate s1 = clockrate s" "src_ctxs s1 = src_ctxs s"
    "pts frame1 = pts frame + pts_offs s1 ! i" "nb_samples frame1 = nb_samples frame"
  using assms by (auto simp: offset_adjust_def Let_def split: if_splits)

lemma update_counters_fields:
  "evs (update_counters n i s) = evs s" "clockrate (update_counters n i s) = clockrate s"
  "out_pts (update_counters n i s) = max (out_pts s) n"
  "length (in_pts (update_counters n i s)) = length (in_pts s)"
  "j \<noteq> i \<Longrightarrow> in_pts (update_counters n i s) ! j = in_pts s ! j"
  "i < length (in_pts s) \<Longrightarrow> in_pts (update_counters n i s) ! i = max (in_pts s ! i) n"
  by (auto simp: update_counters_def Let_def max_def)

lemma silence_event_kind:
  assumes "silence_event e"
  shows "\<not> failed_output e" "e \<noteq> Av_buffersrc_add_frame c f r" "e \<noteq> Output_add out fo ret"
    "e \<noteq> Av_frame_free x"
  using assms by (cases e; simp)+

lemma drain_event_kind:
  assumes "drain_event e"
  shows "e \<noteq> Av_buffersrc_add_frame c f r" "e \<noteq> buffers_failed"
  using assms by (cases e; simp add: buffers_failed_def)+

text \<open>The four ways in which \<^verbatim>\<open>mix_add\<close> returns, with the history each leaves: rejected
  for the index, rejected for a session without sources, refused by the mixer, and
  accepted by the mixer and followed by the silence fill of all inputs and the loop.\<close>

lemma mix_add_cases [consumes 2, case_names range uninit refused accepted]:
  assumes "mix_add env frame idx outp s = Some (r, s')"
    and "offset_adjust frame (unat idx) s = (frame1, s1)"
  obtains
    (range) "NUM_INPUTS \<le> unat idx"
      "(r, s') = mix_add_err ''index out of range'' (Some frame) s"
  | (uninit) "unat idx < NUM_INPUTS" "src_ctxs s ! unat idx = None"
      "(r, s') = mix_add_err ''mixer not initialized'' (Some frame) s"
  | (refused) s2 ret where "unat idx < NUM_INPUTS"
      "mix_silence_fill_idx_upto env (unat idx) (pts frame1) s1 = Some s2"
      "ret \<noteq> 0"
      "(r, s') = mix_add_err ''failed to add frame to mixer'' (Some frame1)
         (emit (Av_buffersrc_add_frame (src_ctxs s2 ! unat idx) frame1 ret) s2)"
  | (accepted) s2 s6 s7 where "unat idx < NUM_INPUTS"
      "mix_silence_fill_idx_upto env (unat idx) (pts frame1) s1 = Some s2"
      "s6 = emit (Av_frame_free (Some frame1))
              (update_counters (pts frame1 + scast (nb_samples frame1)) (unat idx)
                 (emit (Av_buffersrc_add_frame (src_ctxs s2 ! unat idx) frame1 0) s2))"
      "mix_silence_fill env s6 = Some s7"
      "mix_drain env outp None s7 = Some (r, s')"
proof (cases "NUM_INPUTS \<le> unat idx")
  case True
  with assms(1) show ?thesis by (intro range) (simp_all add: mix_add_def)
next
  case inr: False
  show ?thesis
  proof (cases "src_ctxs s ! unat idx = None")
    case True
    with assms(1) inr show ?thesis by (intro uninit) (simp_all add: mix_add_def)
  next
    case False
    define body where "body = (\<lambda>s2.
            (let next_pts = pts frame1 + scast (nb_samples frame1);
                 r = av_buffersrc_add_frame env (evs s2) (src_ctxs s2 ! unat idx) frame1;
                 s3 = emit (Av_buffersrc_add_frame (src_ctxs s2 ! unat idx) frame1 r) s2
             in if r \<noteq> 0
                then Some (mix_add_err ''failed to add frame to mixer'' (Some frame1) s3)
                else Option.bind
                       (mix_silence_fill env
                          (emit (Av_frame_free (Some frame1)) (update_counters next_pts (unat idx) s3)))
                       (mix_drain env outp None)))"
    have "mix_add env frame idx outp s
        = Option.bind (mix_silence_fill_idx_upto env (unat idx) (pts frame1) s1) body"
    proof -
      have fa: "fst (offset_adjust frame (unat idx) s) = frame1"
        "snd (offset_adjust frame (unat idx) s) = s1"
        using assms(2) by simp_all
      show ?thesis
        using inr False unfolding mix_add_def Let_def fa body_def by auto
    qed
    with assms(1) obtain s2 where
      fill: "mix_silence_fill_idx_upto env (unat idx) (pts frame1) s1 = Some s2"
      and "body s2 = Some (r, s')"
      by (auto simp: bind_eq_Some_conv)
    then have rest: "(let next_pts = pts frame1 + scast (nb_samples frame1);
                 r = av_buffersrc_add_frame env (evs s2) (src_ctxs s2 ! unat idx) frame1;
                 s3 = emit (Av_buffersrc_add_frame (src_ctxs s2 ! unat idx) frame1 r) s2
             in if r \<noteq> 0
                then Some (mix_add_err ''failed to add frame to mixer'' (Some frame1) s3)
                else Option.bind
                       (mix_silence_fill env
                          (emit (Av_frame_free (Some frame1)) (update_counters next_pts (unat idx) s3)))
                       (mix_drain env outp None)) = Some (r, s')"
      by (simp add: body_def)
    define ret where "ret = av_buffersrc_add_frame env (evs s2) (src_ctxs s2 ! unat idx) frame1"
    show ?thesis
    proof (cases "ret = 0")
      case True
      with rest obtain s7 where
        "mix_silence_fill env (emit (Av_frame_free (Some frame1))
              (update_counters (pts frame1 + scast (nb_samples frame1)) (unat idx)
                 (emit (Av_buffersrc_add_frame (src_ctxs s2 ! unat idx) frame1 0) s2))) = Some s7"
        "mix_drain env outp None s7 = Some (r, s')"
        by (auto simp: Let_def ret_def bind_eq_Some_conv)
      with inr fill show ?thesis by (intro accepted [OF _ _ refl]) simp_all
    next
      case False
      with rest have "(r, s') = mix_add_err ''failed to add frame to mixer'' (Some frame1)
         (emit (Av_buffersrc_add_frame (src_ctxs s2 ! unat idx) frame1 ret) s2)"
        by (simp add: Let_def ret_def)
      with inr fill False show ?thesis by (intro refused) simp_all
    qed
  qed
qed

section \<open>Failure of the buffers, and counters that never go back\<close>

lemma silence_push_events:
  "\<exists>n. evs (silence_push env idx up_to ss f s) = n @ evs s \<and> buffers_failed \<notin> set n
     \<and> silence_frame (silence_push env idx up_to ss f s) \<noteq> None"
  by (simp add: silence_push_def Let_def emit_def buffers_failed_def)

text \<open>The buffers can fail only in the first pass of the loop, when the session has no
  silence frame yet, and the loop returns at once.\<close>

lemma silence_loop_failed:
  assumes run: "silence_loop env idx up_to ss s = Some s'"
  shows "\<exists>new. evs s' = new @ evs s
    \<and> (buffers_failed \<in> set new \<longrightarrow>
         in_pts s' = in_pts s \<and> in_pts s ! idx < up_to \<and> silence_frame s = None)"
proof (rule silence_loop.raw_induct
    [where P = "\<lambda>env idx up_to ss s s'. \<exists>new. evs s' = new @ evs s
       \<and> (buffers_failed \<in> set new \<longrightarrow>
            in_pts s' = in_pts s \<and> in_pts s ! idx < up_to \<and> silence_frame s = None)",
     OF _ run])
  fix loop :: "env \<Rightarrow> nat \<Rightarrow> u64 \<Rightarrow> u32 \<Rightarrow> sys \<Rightarrow> sys option"
    and env idx up_to and ss :: "32 word" and s s'
  assume IH: "\<And>e i u c t y. loop e i u c t = Some y \<Longrightarrow> \<exists>new. evs y = new @ evs t
       \<and> (buffers_failed \<in> set new \<longrightarrow>
            in_pts y = in_pts t \<and> in_pts t ! i < u \<and> silence_frame t = None)"
    and body: "(if in_pts s ! idx < up_to then
        (case silence_frame s of
           None \<Rightarrow>
            (case silence_frame_init env ss s of
               None \<Rightarrow> None
             | Some (None, s1) \<Rightarrow> Some s1
             | Some (Some f, s1) \<Rightarrow> loop env idx up_to ss (silence_push env idx up_to ss f s1))
         | Some f \<Rightarrow> loop env idx up_to ss (silence_push env idx up_to ss f s))
      else Some s) = Some s'"
  have pushed: "\<exists>new. evs y = new @ evs t \<and> buffers_failed \<notin> set new"
    if "loop env idx up_to ss (silence_push env idx up_to ss f t) = Some y" for f t y
  proof -
    from IH [OF that] silence_push_events [of env idx up_to ss f t]
    obtain n2 n where "evs y = n2 @ evs (silence_push env idx up_to ss f t)"
      "buffers_failed \<notin> set n2" "evs (silence_push env idx up_to ss f t) = n @ evs t"
      "buffers_failed \<notin> set n"
      by blast
    then have "evs y = (n2 @ n) @ evs t" "buffers_failed \<notin> set (n2 @ n)"
      by simp_all
    then show ?thesis by blast
  qed
  show "\<exists>new. evs s' = new @ evs s
       \<and> (buffers_failed \<in> set new \<longrightarrow>
            in_pts s' = in_pts s \<and> in_pts s ! idx < up_to \<and> silence_frame s = None)"
  proof (cases "in_pts s ! idx < up_to")
    case False
    with body have "s' = s" by simp
    then have "evs s' = [] @ evs s" by simp
    then show ?thesis by (intro exI [of _ "[]"]) simp
  next
    case lt: True
    show ?thesis
    proof (cases "silence_frame s")
      case (Some f)
      with body lt have "loop env idx up_to ss (silence_push env idx up_to ss f s) = Some s'"
        by simp
      from pushed [OF this] show ?thesis by blast
    next
      case None
      show ?thesis
      proof (cases "silence_frame_init env ss s")
        case n: None
        with body lt None show ?thesis by simp
      next
        case (Some p)
        obtain fo s1 where p: "p = (fo, s1)" by (cases p)
        from silence_frame_init_Some [OF Some [unfolded p]] obtain new1 where
          inp: "in_pts s1 = in_pts s" and ev1: "evs s1 = new1 @ evs s"
          and bf: "buffers_failed \<in> set new1 \<longleftrightarrow> fo = None"
          by blast
        show ?thesis
        proof (cases fo)
          case n: None
          with body lt None Some p have "s' = s1" by simp
          with inp ev1 lt None show ?thesis by blast
        next
          case f: (Some f)
          with body lt None Some p
          have "loop env idx up_to ss (silence_push env idx up_to ss f s1) = Some s'"
            by simp
          from pushed [OF this] obtain n2 where "evs s' = n2 @ evs s1"
            "buffers_failed \<notin> set n2"
            by blast
          with ev1 bf f have "evs s' = (n2 @ new1) @ evs s" "buffers_failed \<notin> set (n2 @ new1)"
            by simp_all
          then show ?thesis by blast
        qed
      qed
    qed
  qed
qed

lemma silence_loop_mono:
  assumes run: "silence_loop env idx up_to ss s = Some s'"
  shows "in_pts s ! j \<le> in_pts s' ! j"
proof (cases "in_pts s ! idx < up_to")
  case False
  with run have "s' = s"
    by (subst (asm) silence_loop.simps) simp
  then show ?thesis by simp
next
  case lt: True
  from silence_loop_weak [OF run] obtain new where
    oth: "\<forall>j. j \<noteq> idx \<longrightarrow> in_pts s' ! j = in_pts s ! j"
    and ev: "evs s' = new @ evs s"
    and ok: "buffers_failed \<notin> set new \<longrightarrow> \<not> in_pts s' ! idx < up_to"
    unfolding silence_weak_def by blast
  from silence_loop_failed [OF run] ev
  have bad: "buffers_failed \<in> set new \<longrightarrow> in_pts s' = in_pts s"
    by auto
  show ?thesis
  proof (cases "j = idx")
    case False
    with oth show ?thesis by simp
  next
    case True
    show ?thesis
    proof (cases "buffers_failed \<in> set new")
      case True
      with bad show ?thesis by simp
    next
      case False
      with ok have "up_to \<le> in_pts s' ! idx" by simp
      with lt \<open>j = idx\<close> show ?thesis by simp
    qed
  qed
qed

lemma mix_silence_fill_idx_upto_mono:
  "mix_silence_fill_idx_upto env idx up_to s = Some s' \<Longrightarrow> in_pts s ! j \<le> in_pts s' ! j"
  unfolding mix_silence_fill_idx_upto_def by (rule silence_loop_mono)

lemma mix_silence_fill_idx_upto_failed:
  assumes "mix_silence_fill_idx_upto env idx up_to s = Some s'" and "evs s' = new @ evs s"
    and "buffers_failed \<in> set new"
  shows "in_pts s' = in_pts s" "in_pts s ! idx < up_to"
  using silence_loop_failed [OF assms(1) [unfolded mix_silence_fill_idx_upto_def]] assms(2,3)
  by auto

lemma fill_inputs_mono:
  assumes "silence_fill_inputs env is s = Some s'"
  shows "in_pts s ! j \<le> in_pts s' ! j"
  using assms
proof (induction "is" arbitrary: s)
  case Nil
  then show ?case by simp
next
  case (Cons i "is")
  from Cons.prems obtain s1 where
    one: "mix_silence_fill_idx_upto env i (out_pts s - scast (clockrate s)) s = Some s1"
    and rest: "silence_fill_inputs env is s1 = Some s'"
    by (auto simp: bind_eq_Some_conv)
  from mix_silence_fill_idx_upto_mono [OF one] Cons.IH [OF rest] show ?case
    by (rule order_trans)
qed

lemma mix_silence_fill_mono:
  assumes "mix_silence_fill env s = Some s'"
  shows "in_pts s ! j \<le> in_pts s' ! j"
proof (cases "out_pts s < scast (clockrate s)")
  case True
  with assms show ?thesis by (simp add: mix_silence_fill_def)
next
  case False
  with assms have "silence_fill_inputs env [0..<NUM_INPUTS] s = Some s'"
    by (simp add: mix_silence_fill_def)
  then show ?thesis by (rule fill_inputs_mono)
qed

text \<open>If the buffers failed during the fill of all inputs, the input that was being
  filled is still short of the target when the fill returns.\<close>

lemma fill_inputs_failed:
  assumes "silence_fill_inputs env is s = Some s'" and "distinct is"
    and "evs s' = new @ evs s" and "buffers_failed \<in> set new"
  shows "\<exists>i\<in>set is. in_pts s' ! i < out_pts s - scast (clockrate s)"
  using assms
proof (induction "is" arbitrary: s new)
  case Nil
  then show ?case by simp
next
  case (Cons i "is")
  let ?T = "out_pts s - scast (clockrate s)"
  from Cons.prems(1) obtain s1 where
    one: "mix_silence_fill_idx_upto env i ?T s = Some s1"
    and rest: "silence_fill_inputs env is s1 = Some s'"
    by (auto simp: bind_eq_Some_conv)
  from Cons.prems(2) have d: "distinct is" and ni: "i \<notin> set is" by simp_all
  from mix_silence_fill_idx_upto_weak [OF one] obtain n1 where
    rel1: "silence_rel s s1" and ev1: "evs s1 = n1 @ evs s"
    unfolding silence_weak_def by blast
  have T1: "out_pts s1 - scast (clockrate s1) = ?T"
    using silence_rel_fields(1,3) [OF rel1] by simp
  from fill_inputs_weak [OF rest d] obtain n2 where
    oth2: "\<forall>j. j \<notin> set is \<longrightarrow> in_pts s' ! j = in_pts s1 ! j" and ev2: "evs s' = n2 @ evs s1"
    by blast
  from ev1 ev2 Cons.prems(3) have new: "new = n2 @ n1" by simp
  show ?case
  proof (cases "buffers_failed \<in> set n2")
    case True
    from Cons.IH [OF rest d ev2 True] show ?thesis
      by (auto simp: T1)
  next
    case False
    with Cons.prems(4) new have "buffers_failed \<in> set n1" by simp
    from mix_silence_fill_idx_upto_failed [OF one ev1 this]
    have "in_pts s1 ! i < ?T" by simp
    with oth2 ni show ?thesis by simp
  qed
qed

lemma mix_silence_fill_failed:
  assumes "mix_silence_fill env s = Some s'" and "evs s' = new @ evs s"
    and "buffers_failed \<in> set new"
  shows "scast (clockrate s) \<le> out_pts s
    \<and> (\<exists>i<NUM_INPUTS. in_pts s' ! i < out_pts s - scast (clockrate s))"
proof (cases "out_pts s < scast (clockrate s)")
  case True
  with assms(1) have "s' = s" by (simp add: mix_silence_fill_def)
  with assms(2,3) show ?thesis by simp
next
  case False
  with assms(1) have "silence_fill_inputs env [0..<NUM_INPUTS] s = Some s'"
    by (simp add: mix_silence_fill_def)
  from fill_inputs_failed [OF this _ assms(2,3)] False show ?thesis
    by auto
qed

lemma update_counters_mono:
  "out_pts s \<le> out_pts (update_counters n i s)"
  "in_pts s ! j \<le> in_pts (update_counters n i s) ! j"
proof -
  show "out_pts s \<le> out_pts (update_counters n i s)"
    by (simp add: update_counters_fields)
  show "in_pts s ! j \<le> in_pts (update_counters n i s) ! j"
  proof (cases "j = i \<and> i < length (in_pts s)")
    case True
    then show ?thesis by (simp add: update_counters_fields)
  next
    case False
    then have "in_pts (update_counters n i s) ! j = in_pts s ! j"
      by (auto simp: update_counters_def Let_def list_update_beyond not_less)
    then show ?thesis by simp
  qed
qed

lemma mix_add_err_fields:
  "in_pts (snd (mix_add_err err f s)) = in_pts s" "out_pts (snd (mix_add_err err f s)) = out_pts s"
  "clockrate (snd (mix_add_err err f s)) = clockrate s"
  "evs (snd (mix_add_err err f s))
     = Av_frame_free f # Ilog LOG_ERR (''Failed to add frame to mixer: '' @ err) # evs s"
  "fst (mix_add_err err f s) = - 1"
  by (simp_all add: mix_add_err_def emit_def)

text \<open>What the paths through \<^verbatim>\<open>mix_add\<close> leave: the history of the call, the result, the
  clock rate, the output timestamp and the counters.\<close>

lemma rejected_fields:
  assumes "(r, s') = mix_add_err err (Some frame) s"
  shows "r = - 1" "in_pts s' = in_pts s" "out_pts s' = out_pts s" "clockrate s' = clockrate s"
    "evs s' = [Av_frame_free (Some frame),
       Ilog LOG_ERR (''Failed to add frame to mixer: '' @ err)] @ evs s"
proof -
  from assms have "r = fst (mix_add_err err (Some frame) s)"
    "s' = snd (mix_add_err err (Some frame) s)"
    by (metis fst_conv, metis snd_conv)
  then show "r = - 1" "in_pts s' = in_pts s" "out_pts s' = out_pts s"
    "clockrate s' = clockrate s"
    "evs s' = [Av_frame_free (Some frame),
       Ilog LOG_ERR (''Failed to add frame to mixer: '' @ err)] @ evs s"
    by (simp_all add: mix_add_err_fields)
qed

lemma mix_add_mono:
  assumes add: "mix_add env frame idx outp s = Some (r, s')"
  shows "out_pts s \<le> out_pts s'" "in_pts s ! j \<le> in_pts s' ! j"
proof -
  obtain frame1 s1 where oa: "offset_adjust frame (unat idx) s = (frame1, s1)"
    by (cases "offset_adjust frame (unat idx) s")
  note o = offset_adjust_fields [OF oa]
  from add oa have "out_pts s \<le> out_pts s' \<and> in_pts s ! j \<le> in_pts s' ! j"
  proof (cases rule: mix_add_cases)
    case range
    from rejected_fields [OF range(2)] show ?thesis by simp
  next
    case uninit
    from rejected_fields [OF uninit(3)] show ?thesis by simp
  next
    case (refused s2 ret)
    from mix_silence_fill_idx_upto_weak [OF refused(2)] have rel: "silence_rel s1 s2"
      unfolding silence_weak_def by blast
    from refused(4) have s': "s' = snd (mix_add_err ''failed to add frame to mixer'' (Some frame1)
         (emit (Av_buffersrc_add_frame (src_ctxs s2 ! unat idx) frame1 ret) s2))"
      by (metis snd_conv)
    have f: "in_pts s' = in_pts s2" "out_pts s' = out_pts s"
      using silence_rel_fields(3) [OF rel] o
      by (simp_all add: s' mix_add_err_fields emit_def)
    from mix_silence_fill_idx_upto_mono [OF refused(2), of j] show ?thesis
      by (simp add: f o)
  next
    case (accepted s2 s6 s7)
    from mix_silence_fill_idx_upto_weak [OF accepted(2)] have rel: "silence_rel s1 s2"
      unfolding silence_weak_def by blast
    let ?s3 = "emit (Av_buffersrc_add_frame (src_ctxs s2 ! unat idx) frame1 0) s2"
    let ?nx = "pts frame1 + scast (nb_samples frame1)"
    have f3: "in_pts ?s3 = in_pts s2" "out_pts ?s3 = out_pts s"
      using silence_rel_fields(3) [OF rel] o by (simp_all add: emit_def)
    have f6: "in_pts s6 = in_pts (update_counters ?nx (unat idx) ?s3)"
      "out_pts s6 = out_pts (update_counters ?nx (unat idx) ?s3)"
      by (simp_all add: accepted(3) emit_def)
    from mix_silence_fill_weak [OF accepted(4)] have rel7: "silence_rel s6 s7"
      by blast
    from mix_drain_post [OF accepted(5)] have drel: "drain_rel s7 s'"
      unfolding drain_post_def by blast
    have f': "out_pts s' = out_pts s6" "in_pts s' = in_pts s7"
      using drain_rel_fields [OF drel] silence_rel_fields [OF rel7] by simp_all
    have "out_pts s \<le> out_pts s6"
      using update_counters_mono(1) [of ?s3 ?nx "unat idx"] by (simp add: f6 f3)
    moreover have "in_pts s ! j \<le> in_pts s2 ! j"
      using mix_silence_fill_idx_upto_mono [OF accepted(2), of j] by (simp add: o)
    moreover have "in_pts s2 ! j \<le> in_pts s6 ! j"
      using update_counters_mono(2) [of ?s3 j ?nx "unat idx"] by (simp add: f6 f3)
    moreover have "in_pts s6 ! j \<le> in_pts s7 ! j"
      using accepted(4) by (rule mix_silence_fill_mono)
    ultimately show ?thesis
      by (simp add: f')
  qed
  then show "out_pts s \<le> out_pts s'" "in_pts s ! j \<le> in_pts s' ! j"
    by simp_all
qed

text \<open>A history that ends with the part \<open>a\<close> after the hand-over of a frame.\<close>

lemma since_add_split:
  assumes "\<forall>e\<in>set a. \<not> add_frame_event e"
  shows "since_add (a @ Av_buffersrc_add_frame c f r # b) = a"
    "before_add (a @ Av_buffersrc_add_frame c f r # b) = b"
  using assms by (simp_all add: since_add_def before_add_def takeWhile_append2 dropWhile_append2)

lemma silence_not_add: "silence_event e \<Longrightarrow> \<not> add_frame_event e"
  by (cases e) simp_all

lemma drain_not_add: "drain_event e \<Longrightarrow> \<not> add_frame_event e"
  by (cases e) simp_all

lemma history_since_append: "evs s' = new @ evs s \<Longrightarrow> history_since s s' = new"
  by (simp add: history_since_def)


section \<open>The last chunk of a silence fill\<close>

lemma silence_push_last:
  assumes "idx < length (in_pts s)"
  shows "\<exists>w g. evs (silence_push env idx up_to ss f s) = w @ evs s \<and> written_frames w = [g]
     \<and> in_pts (silence_push env idx up_to ss f s) ! idx = chunk_end g
     \<and> length (in_pts (silence_push env idx up_to ss f s)) = length (in_pts s)
     \<and> silence_frame (silence_push env idx up_to ss f s) \<noteq> None"
  using assms by (simp add: silence_push_def Let_def emit_def chunk_end_def)

lemma silence_init_no_writes:
  assumes "silence_frame_init env ss s = Some (fo, s1)"
  shows "\<exists>new. evs s1 = new @ evs s \<and> written_frames new = [] \<and> in_pts s1 = in_pts s"
proof -
  from silence_frame_init_Some [OF assms] obtain new where
    "evs s1 = new @ evs s" "\<forall>c f r. Av_buffersrc_write_frame c f r \<notin> set new"
    "in_pts s1 = in_pts s"
    by blast
  moreover from this(2) have "written_frames new = []"
    by (induction new rule: written_frames.induct) auto
  ultimately show ?thesis by blast
qed

text \<open>If a fill of one input wrote chunks, the counter of the input is the end of the
  last of them and has reached the target, and the chunks before the last ended short of
  the target. If it wrote none, no counter changed, because there was nothing to fill or
  because there was no silence frame and none could be made.\<close>

lemma silence_loop_last:
  assumes run: "silence_loop env idx up_to ss s = Some s'"
  shows "idx < length (in_pts s) \<longrightarrow> (\<exists>n. evs s' = n @ evs s
    \<and> (case written_frames n of
          [] \<Rightarrow> in_pts s' = in_pts s \<and> (up_to \<le> in_pts s ! idx \<or> silence_frame s = None)
        | g # rest \<Rightarrow> in_pts s ! idx < up_to \<and> up_to \<le> in_pts s' ! idx
            \<and> in_pts s' ! idx = chunk_end g \<and> (\<forall>h\<in>set rest. chunk_end h < up_to)))"
proof (rule silence_loop.raw_induct
    [where P = "\<lambda>env idx up_to ss s s'. idx < length (in_pts s) \<longrightarrow> (\<exists>n. evs s' = n @ evs s
    \<and> (case written_frames n of
          [] \<Rightarrow> in_pts s' = in_pts s \<and> (up_to \<le> in_pts s ! idx \<or> silence_frame s = None)
        | g # rest \<Rightarrow> in_pts s ! idx < up_to \<and> up_to \<le> in_pts s' ! idx
            \<and> in_pts s' ! idx = chunk_end g \<and> (\<forall>h\<in>set rest. chunk_end h < up_to)))",
     OF _ run])
  fix loop :: "env \<Rightarrow> nat \<Rightarrow> u64 \<Rightarrow> u32 \<Rightarrow> sys \<Rightarrow> sys option"
    and env idx up_to and ss :: "32 word" and s s'
  assume IH: "\<And>e i u c t y. loop e i u c t = Some y \<Longrightarrow>
      i < length (in_pts t) \<longrightarrow> (\<exists>n. evs y = n @ evs t
    \<and> (case written_frames n of
          [] \<Rightarrow> in_pts y = in_pts t \<and> (u \<le> in_pts t ! i \<or> silence_frame t = None)
        | g # rest \<Rightarrow> in_pts t ! i < u \<and> u \<le> in_pts y ! i
            \<and> in_pts y ! i = chunk_end g \<and> (\<forall>h\<in>set rest. chunk_end h < u)))"
    and body: "(if in_pts s ! idx < up_to then
        (case silence_frame s of
           None \<Rightarrow>
            (case silence_frame_init env ss s of
               None \<Rightarrow> None
             | Some (None, s1) \<Rightarrow> Some s1
             | Some (Some f, s1) \<Rightarrow> loop env idx up_to ss (silence_push env idx up_to ss f s1))
         | Some f \<Rightarrow> loop env idx up_to ss (silence_push env idx up_to ss f s))
      else Some s) = Some s'"
  text \<open>One chunk from a state \<open>t\<close> that is \<open>s\<close> but for events without a write.\<close>
  have pushed: "\<exists>n. evs y = n @ evs s
    \<and> (case written_frames n of
          [] \<Rightarrow> in_pts y = in_pts s \<and> (up_to \<le> in_pts s ! idx \<or> silence_frame s = None)
        | g # rest \<Rightarrow> in_pts s ! idx < up_to \<and> up_to \<le> in_pts y ! idx
            \<and> in_pts y ! idx = chunk_end g \<and> (\<forall>h\<in>set rest. chunk_end h < up_to))"
    if run2: "loop env idx up_to ss (silence_push env idx up_to ss f t) = Some y"
      and t: "evs t = new1 @ evs s" "written_frames new1 = []" "in_pts t = in_pts s"
      and lt: "in_pts s ! idx < up_to" and len: "idx < length (in_pts s)"
    for f t y new1
  proof -
    let ?s2 = "silence_push env idx up_to ss f t"
    from len t(3) have lent: "idx < length (in_pts t)" by simp
    from silence_push_last [OF lent, of env up_to ss f] obtain w g0 where
      ev2: "evs ?s2 = w @ evs t" and w: "written_frames w = [g0]"
      and in2: "in_pts ?s2 ! idx = chunk_end g0"
      and len2: "length (in_pts ?s2) = length (in_pts t)"
      and sf2: "silence_frame ?s2 \<noteq> None"
      by blast
    from IH [OF run2] lent len2 obtain n2 where
      ev': "evs y = n2 @ evs ?s2"
      and c: "case written_frames n2 of
          [] \<Rightarrow> in_pts y = in_pts ?s2 \<and> (up_to \<le> in_pts ?s2 ! idx \<or> silence_frame ?s2 = None)
        | g # rest \<Rightarrow> in_pts ?s2 ! idx < up_to \<and> up_to \<le> in_pts y ! idx
            \<and> in_pts y ! idx = chunk_end g \<and> (\<forall>h\<in>set rest. chunk_end h < up_to)"
      by auto
    have evy: "evs y = (n2 @ w @ new1) @ evs s"
      using ev' ev2 t(1) by simp
    have wf: "written_frames (n2 @ w @ new1) = written_frames n2 @ [g0]"
      by (simp add: written_frames_append w t(2))
    show ?thesis
    proof (cases "written_frames n2")
      case Nil
      with c sf2 have "in_pts y = in_pts ?s2" "up_to \<le> in_pts ?s2 ! idx"
        by simp_all
      with in2 lt have "case written_frames (n2 @ w @ new1) of
          [] \<Rightarrow> in_pts y = in_pts s \<and> (up_to \<le> in_pts s ! idx \<or> silence_frame s = None)
        | g # rest \<Rightarrow> in_pts s ! idx < up_to \<and> up_to \<le> in_pts y ! idx
            \<and> in_pts y ! idx = chunk_end g \<and> (\<forall>h\<in>set rest. chunk_end h < up_to)"
        by (simp add: wf Nil)
      with evy show ?thesis by blast
    next
      case (Cons g rest)
      with c have "in_pts ?s2 ! idx < up_to" "up_to \<le> in_pts y ! idx"
        "in_pts y ! idx = chunk_end g" "\<forall>h\<in>set rest. chunk_end h < up_to"
        by auto
      with in2 lt have "case written_frames (n2 @ w @ new1) of
          [] \<Rightarrow> in_pts y = in_pts s \<and> (up_to \<le> in_pts s ! idx \<or> silence_frame s = None)
        | g # rest \<Rightarrow> in_pts s ! idx < up_to \<and> up_to \<le> in_pts y ! idx
            \<and> in_pts y ! idx = chunk_end g \<and> (\<forall>h\<in>set rest. chunk_end h < up_to)"
        by (simp add: wf Cons)
      with evy show ?thesis by blast
    qed
  qed
  show "idx < length (in_pts s) \<longrightarrow> (\<exists>n. evs s' = n @ evs s
    \<and> (case written_frames n of
          [] \<Rightarrow> in_pts s' = in_pts s \<and> (up_to \<le> in_pts s ! idx \<or> silence_frame s = None)
        | g # rest \<Rightarrow> in_pts s ! idx < up_to \<and> up_to \<le> in_pts s' ! idx
            \<and> in_pts s' ! idx = chunk_end g \<and> (\<forall>h\<in>set rest. chunk_end h < up_to)))"
  proof
    assume len: "idx < length (in_pts s)"
    show "\<exists>n. evs s' = n @ evs s
    \<and> (case written_frames n of
          [] \<Rightarrow> in_pts s' = in_pts s \<and> (up_to \<le> in_pts s ! idx \<or> silence_frame s = None)
        | g # rest \<Rightarrow> in_pts s ! idx < up_to \<and> up_to \<le> in_pts s' ! idx
            \<and> in_pts s' ! idx = chunk_end g \<and> (\<forall>h\<in>set rest. chunk_end h < up_to))"
    proof (cases "in_pts s ! idx < up_to")
      case False
      with body have "s' = s" by simp
      with False show ?thesis
        by (intro exI [of _ "[]"]) (simp add: not_less)
    next
      case lt: True
      show ?thesis
      proof (cases "silence_frame s")
        case (Some f)
        with body lt have "loop env idx up_to ss (silence_push env idx up_to ss f s) = Some s'"
          by simp
        from pushed [OF this _ _ _ lt len, of "[]"] show ?thesis by simp
      next
        case None
        show ?thesis
        proof (cases "silence_frame_init env ss s")
          case n: None
          with body lt None show ?thesis by simp
        next
          case (Some p)
          obtain fo s1 where p: "p = (fo, s1)" by (cases p)
          from silence_init_no_writes [OF Some [unfolded p]] obtain new1 where
            t: "evs s1 = new1 @ evs s" "written_frames new1 = []" "in_pts s1 = in_pts s"
            by blast
          show ?thesis
          proof (cases fo)
            case n: None
            with body lt None Some p have "s' = s1" by simp
            with t None show ?thesis
              by (intro exI [of _ new1]) simp
          next
            case f: (Some f)
            with body lt None Some p
            have "loop env idx up_to ss (silence_push env idx up_to ss f s1) = Some s'"
              by simp
            from pushed [OF this t lt len] show ?thesis .
          qed
        qed
      qed
    qed
  qed
qed

lemma mix_silence_fill_idx_upto_last:
  assumes "mix_silence_fill_idx_upto env idx up_to s = Some s'" and "idx < length (in_pts s)"
    and "evs s' = n @ evs s"
  shows "case written_frames n of
          [] \<Rightarrow> in_pts s' = in_pts s
        | g # rest \<Rightarrow> up_to \<le> in_pts s' ! idx
            \<and> in_pts s' ! idx = chunk_end g \<and> (\<forall>h\<in>set rest. chunk_end h < up_to)"
proof -
  from silence_loop_last [OF assms(1) [unfolded mix_silence_fill_idx_upto_def]] assms(2)
  obtain m where m: "evs s' = m @ evs s"
    and c: "case written_frames m of
          [] \<Rightarrow> in_pts s' = in_pts s \<and> (up_to \<le> in_pts s ! idx \<or> silence_frame s = None)
        | g # rest \<Rightarrow> in_pts s ! idx < up_to \<and> up_to \<le> in_pts s' ! idx
            \<and> in_pts s' ! idx = chunk_end g \<and> (\<forall>h\<in>set rest. chunk_end h < up_to)"
    by blast
  from m assms(3) have "m = n" by simp
  with c show ?thesis
    by (cases "written_frames n") auto
qed

text \<open>In the fill of all inputs, a chunk ends short of the target or where the counter
  of an input is when the fill returns; and a counter that changed is at the end of a
  chunk.\<close>

lemma fill_inputs_last:
  assumes "silence_fill_inputs env is s = Some s'" and "distinct is"
    and "\<forall>i\<in>set is. i < length (in_pts s)" and "evs s' = n @ evs s"
  shows "(\<forall>g\<in>set (written_frames n). chunk_end g < out_pts s - scast (clockrate s)
            \<or> (\<exists>j\<in>set is. in_pts s' ! j = chunk_end g))
    \<and> (\<forall>j. in_pts s' ! j = in_pts s ! j \<or> (\<exists>g\<in>set (written_frames n). in_pts s' ! j = chunk_end g))"
  using assms
proof (induction "is" arbitrary: s n)
  case Nil
  then show ?case by simp
next
  case (Cons i "is")
  let ?T = "out_pts s - scast (clockrate s)"
  from Cons.prems(1) obtain s1 where
    one: "mix_silence_fill_idx_upto env i ?T s = Some s1"
    and rest: "silence_fill_inputs env is s1 = Some s'"
    by (auto simp: bind_eq_Some_conv)
  from Cons.prems(2) have d: "distinct is" and ni: "i \<notin> set is" by simp_all
  from Cons.prems(3) have i: "i < length (in_pts s)" by simp
  from mix_silence_fill_idx_upto_weak [OF one] obtain n1 where
    rel1: "silence_rel s s1" and ev1: "evs s1 = n1 @ evs s"
    and len1: "length (in_pts s1) = length (in_pts s)"
    and oth1: "\<forall>j. j \<noteq> i \<longrightarrow> in_pts s1 ! j = in_pts s ! j"
    unfolding silence_weak_def by blast
  have T1: "out_pts s1 - scast (clockrate s1) = ?T"
    using silence_rel_fields(1,3) [OF rel1] by simp
  from fill_inputs_weak [OF rest d] obtain n2 where
    oth2: "\<forall>j. j \<notin> set is \<longrightarrow> in_pts s' ! j = in_pts s1 ! j" and ev2: "evs s' = n2 @ evs s1"
    by blast
  from ev1 ev2 Cons.prems(4) have n: "n = n2 @ n1" by simp
  have lens: "\<forall>k\<in>set is. k < length (in_pts s1)"
    using Cons.prems(3) len1 by simp
  from Cons.IH [OF rest d lens ev2]
  have A2: "\<forall>g\<in>set (written_frames n2). chunk_end g < ?T
            \<or> (\<exists>j\<in>set is. in_pts s' ! j = chunk_end g)"
    and B2: "\<forall>j. in_pts s' ! j = in_pts s1 ! j
            \<or> (\<exists>g\<in>set (written_frames n2). in_pts s' ! j = chunk_end g)"
    by (simp_all add: T1)
  note L = mix_silence_fill_idx_upto_last [OF one i ev1]
  have si: "in_pts s' ! i = in_pts s1 ! i"
    using oth2 ni by simp
  have A1: "\<forall>g\<in>set (written_frames n1). chunk_end g < ?T \<or> in_pts s' ! i = chunk_end g"
    using L by (cases "written_frames n1") (auto simp: si)
  have B1: "\<forall>j. in_pts s1 ! j = in_pts s ! j
            \<or> (\<exists>g\<in>set (written_frames n1). in_pts s1 ! j = chunk_end g)"
  proof
    fix j
    show "in_pts s1 ! j = in_pts s ! j
            \<or> (\<exists>g\<in>set (written_frames n1). in_pts s1 ! j = chunk_end g)"
    proof (cases "j = i")
      case False
      with oth1 show ?thesis by simp
    next
      case True
      with L show ?thesis by (cases "written_frames n1") auto
    qed
  qed
  have "\<forall>g\<in>set (written_frames n). chunk_end g < ?T
            \<or> (\<exists>j\<in>set (i # is). in_pts s' ! j = chunk_end g)"
    using A1 A2 by (auto simp: n written_frames_append)
  moreover have "\<forall>j. in_pts s' ! j = in_pts s ! j
      \<or> (\<exists>g\<in>set (written_frames n). in_pts s' ! j = chunk_end g)"
  proof
    fix j
    from B2 have "in_pts s' ! j = in_pts s1 ! j
        \<or> (\<exists>g\<in>set (written_frames n2). in_pts s' ! j = chunk_end g)" by simp
    then show "in_pts s' ! j = in_pts s ! j
      \<or> (\<exists>g\<in>set (written_frames n). in_pts s' ! j = chunk_end g)"
    proof
      assume e: "in_pts s' ! j = in_pts s1 ! j"
      from B1 have "in_pts s1 ! j = in_pts s ! j
            \<or> (\<exists>g\<in>set (written_frames n1). in_pts s1 ! j = chunk_end g)" by simp
      with e show ?thesis
        by (auto simp: n written_frames_append)
    next
      assume "\<exists>g\<in>set (written_frames n2). in_pts s' ! j = chunk_end g"
      then show ?thesis
        by (auto simp: n written_frames_append)
    qed
  qed
  ultimately show ?case by simp
qed

lemma mix_silence_fill_last:
  assumes "mix_silence_fill env s = Some s'" and "length (in_pts s) = NUM_INPUTS"
    and "evs s' = n @ evs s"
  shows "(\<forall>g\<in>set (written_frames n). chunk_end g \<le> out_pts s
            \<or> (\<exists>j<NUM_INPUTS. in_pts s' ! j = chunk_end g))
    \<and> (\<forall>j. in_pts s' ! j = in_pts s ! j \<or> (\<exists>g\<in>set (written_frames n). in_pts s' ! j = chunk_end g))"
proof (cases "out_pts s < scast (clockrate s)")
  case True
  with assms(1) have "s' = s" by (simp add: mix_silence_fill_def)
  with assms(3) show ?thesis by simp
next
  case False
  with assms(1) have fill: "silence_fill_inputs env [0..<NUM_INPUTS] s = Some s'"
    by (simp add: mix_silence_fill_def)
  from False have T: "out_pts s - scast (clockrate s) \<le> out_pts s"
    by (simp add: word_sub_le)
  from fill_inputs_last [OF fill _ _ assms(3)] assms(2)
  have A: "\<forall>g\<in>set (written_frames n). chunk_end g < out_pts s - scast (clockrate s)
            \<or> (\<exists>j\<in>set [0..<NUM_INPUTS]. in_pts s' ! j = chunk_end g)"
    and B: "\<forall>j. in_pts s' ! j = in_pts s ! j
            \<or> (\<exists>g\<in>set (written_frames n). in_pts s' ! j = chunk_end g)"
    by simp_all
  have "\<forall>g\<in>set (written_frames n). chunk_end g \<le> out_pts s
            \<or> (\<exists>j<NUM_INPUTS. in_pts s' ! j = chunk_end g)"
  proof
    fix g
    assume "g \<in> set (written_frames n)"
    with A have "chunk_end g < out_pts s - scast (clockrate s)
            \<or> (\<exists>j\<in>set [0..<NUM_INPUTS]. in_pts s' ! j = chunk_end g)" by blast
    then show "chunk_end g \<le> out_pts s \<or> (\<exists>j<NUM_INPUTS. in_pts s' ! j = chunk_end g)"
    proof
      assume "chunk_end g < out_pts s - scast (clockrate s)"
      with T have "chunk_end g \<le> out_pts s" by simp
      then show ?thesis by simp
    next
      assume "\<exists>j\<in>set [0..<NUM_INPUTS]. in_pts s' ! j = chunk_end g"
      then show ?thesis by auto
    qed
  qed
  with B show ?thesis by simp
qed

lemma written_frames_drain: "\<forall>x\<in>set n. drain_event x \<Longrightarrow> written_frames n = []"
  by (induction n rule: written_frames.induct) auto

section \<open>Index allocation\<close>

lemma inputs_list: "[0..<NUM_INPUTS] = [0, 1, 2, 3]"
  unfolding NUM_INPUTS_def by code_simp

lemma get_indices_from:
  "fst (get_indices n s) = map (\<lambda>k. next_idx s + of_nat k) [0..<n]
   \<and> next_idx (snd (get_indices n s)) = next_idx s + of_nat n"
proof (induction n arbitrary: s)
  case 0
  show ?case by simp
next
  case (Suc n)
  have "[0..<Suc n] = 0 # map Suc [0..<n]"
    by (simp only: upt_conv_Cons [of 0 "Suc n", OF zero_less_Suc] map_Suc_upt)
  with Suc [of "snd (mix_get_index s)"] show ?case
    by (simp add: Let_def mix_get_index_def add.assoc del: upt_Suc)
qed

text \<open>
  C9. On a new session, \<^verbatim>\<open>NUM_INPUTS\<close> calls of \<^verbatim>\<open>mix_get_index\<close> return 0, 1, 2, 3 in
  this order: four distinct values that cover the range of the input indices. The call
  after them does not fail: it returns 4, which is not an index of an input, and
  \<^verbatim>\<open>mix_add\<close> rejects it in every state of the session.
\<close>

theorem get_index_covers_inputs:
  "fst (get_indices NUM_INPUTS (mix_new env)) = [0, 1, 2, 3]
   \<and> map unat (fst (get_indices NUM_INPUTS (mix_new env))) = [0..<NUM_INPUTS]
   \<and> distinct (fst (get_indices NUM_INPUTS (mix_new env)))
   \<and> fst (mix_get_index (snd (get_indices NUM_INPUTS (mix_new env)))) = 4
   \<and> \<not> unat (4 :: u32) < NUM_INPUTS
   \<and> mix_add env frame 4 output s = Some (mix_add_err ''index out of range'' (Some frame) s)"
proof -
  have new: "next_idx (mix_new env) = 0"
    by (simp add: mix_new_def)
  have ids: "fst (get_indices NUM_INPUTS (mix_new env)) = [0, 1, 2, 3]"
    using get_indices_from [of NUM_INPUTS "mix_new env"] by (simp add: inputs_list new)
  have nxt: "next_idx (snd (get_indices NUM_INPUTS (mix_new env))) = 4"
    using get_indices_from [of NUM_INPUTS "mix_new env"] by (simp add: new NUM_INPUTS_def)
  show ?thesis
    by (simp add: ids nxt inputs_list mix_get_index_def mix_add_def) (simp add: NUM_INPUTS_def)
qed

section \<open>Submissions that are rejected\<close>

text \<open>
  C7, as the code has it. A submission to an index out of range, or to an index whose
  source endpoint is not built (the session is not configured), returns -1; nothing of
  the session changes; the history gains the log entry and the release of the frame.
  Whether the index was handed out by \<^verbatim>\<open>mix_get_index\<close> is not looked at.
\<close>

theorem mix_add_rejects:
  assumes "NUM_INPUTS \<le> unat idx \<or> src_ctxs s ! unat idx = None"
  shows "\<exists>err. mix_add env frame idx output s =
      Some (- 1, s\<lparr>evs := Av_frame_free (Some frame)
                  # Ilog LOG_ERR (''Failed to add frame to mixer: '' @ err) # evs s\<rparr>)"
  using assms by (auto simp: mix_add_def mix_add_err_def emit_def)

theorem mix_add_rejects_witness:
  "(NUM_INPUTS \<le> unat (0 :: u32) \<or> src_ctxs (mix_new env_ok) ! unat (0 :: u32) = None)
   \<and> (\<exists>err. mix_add env_ok (pcm 0 160) 0 None (mix_new env_ok) =
      Some (- 1, (mix_new env_ok)\<lparr>evs := Av_frame_free (Some (pcm 0 160))
                  # Ilog LOG_ERR (''Failed to add frame to mixer: '' @ err)
                  # evs (mix_new env_ok)\<rparr>))"
proof -
  have h: "NUM_INPUTS \<le> unat (0 :: u32) \<or> src_ctxs (mix_new env_ok) ! unat (0 :: u32) = None"
    by (simp add: mix_new_def NUM_INPUTS_def)
  from mix_add_rejects [OF h] h show ?thesis by blast
qed

text \<open>
  C7 as stated fails: on a configured session on which \<^verbatim>\<open>mix_get_index\<close> was never
  called, a submission to index 0 is accepted and changes the session.
\<close>

theorem unallocated_index_accepted:
  "next_idx (configured env_ok 8000) = 0
   \<and> ret_code (mix_add env_ok (pcm 0 160) 0 None (configured env_ok 8000)) = Some 0
   \<and> map_option out_pts (ret_sys (mix_add env_ok (pcm 0 160) 0 None (configured env_ok 8000)))
       = Some 160
   \<and> map_option pts_offs (ret_sys (mix_add env_ok (pcm 0 160) 0 None (configured env_ok 8000)))
       = Some [0, - 1, - 1, - 1]"
  by code_simp

section \<open>Configuration\<close>

text \<open>
  C4 at a failing input. The first \<^verbatim>\<open>mix_config\<close> of a new session fails (the graph
  cannot be allocated) and leaves no topology; the parameters stay stored. The same call
  again returns 0 and changes nothing, although no topology is built and the build would
  succeed now, as the call with another channel count shows.
\<close>

theorem config_noop_without_topology:
  "fst (mix_config env_graph_retry 8000 1 (mix_new env_graph_retry)) = - 1
   \<and> graph (configured env_graph_retry 8000) = None
   \<and> src_ctxs (configured env_graph_retry 8000) = [None, None, None, None]
   \<and> mix_config env_graph_retry 8000 1 (configured env_graph_retry 8000)
       = (0, configured env_graph_retry 8000)
   \<and> fst (mix_config env_graph_retry 8000 2 (configured env_graph_retry 8000)) = 0
   \<and> src_ctxs (snd (mix_config env_graph_retry 8000 2 (configured env_graph_retry 8000)))
       = [Some 3, Some 3, Some 3, Some 3]"
  by code_simp

section \<open>The offset of an input\<close>

text \<open>
  C2 at a failing input. The first frame of input 0 has timestamp 1 while the output
  timestamp is 0: the offset computed is \<open>0 - 1\<close>, the value that marks an unset offset.
  The frame is forwarded with timestamp \<open>1 + (0 - 1) = 0\<close>. At the second frame of the
  input, with timestamp 500, the offset counts as unset and is computed again, now as
  \<open>160 - 500\<close>; the frame is forwarded with timestamp 160 instead of 499.
\<close>

theorem offset_set_twice:
  "map_option pts_offs (ret_sys (mix_add env_ok (pcm 1 160) 0 None (configured env_ok 8000)))
     = Some [0 - 1, - 1, - 1, - 1]
   \<and> map_option (\<lambda>s. take 2 (tl (evs s)))
       (ret_sys (mix_add env_ok (pcm 1 160) 0 None (configured env_ok 8000)))
     = Some [Av_frame_free (Some (pcm 0 160)), Av_buffersrc_add_frame (Some 3) (pcm 0 160) 0]
   \<and> map_option pts_offs
       (ret_sys (Option.bind
          (ret_sys (mix_add env_ok (pcm 1 160) 0 None (configured env_ok 8000)))
          (mix_add env_ok (pcm 500 160) 0 None)))
     = Some [160 - 500, - 1, - 1, - 1]
   \<and> map_option (\<lambda>s. take 2 (tl (evs s)))
       (ret_sys (Option.bind
          (ret_sys (mix_add env_ok (pcm 1 160) 0 None (configured env_ok 8000)))
          (mix_add env_ok (pcm 500 160) 0 None)))
     = Some [Av_frame_free (Some (pcm 160 160)),
             Av_buffersrc_add_frame (Some 3) (pcm 160 160) 0]"
  by code_simp

section \<open>The silence fill of one input\<close>

lemma written_frames_none:
  "\<forall>c f r. Av_buffersrc_write_frame c f r \<notin> set new \<Longrightarrow> written_frames new = []"
  by (induction new rule: written_frames.induct) auto

lemma silence_loop_stuck:
  assumes run: "silence_loop env idx up_to ss s = Some s'"
  shows "ss = 0 \<longrightarrow> idx < length (in_pts s) \<longrightarrow> in_pts s ! idx < up_to
    \<longrightarrow> silence_frame s \<noteq> None \<longrightarrow> False"
proof (rule silence_loop.raw_induct
    [where P = "\<lambda>env idx up_to ss s s'. ss = 0 \<longrightarrow> idx < length (in_pts s)
       \<longrightarrow> in_pts s ! idx < up_to \<longrightarrow> silence_frame s \<noteq> None \<longrightarrow> False",
     OF _ run])
  fix loop :: "env \<Rightarrow> nat \<Rightarrow> u64 \<Rightarrow> u32 \<Rightarrow> sys \<Rightarrow> sys option"
    and env idx up_to and ss :: "32 word" and s s'
  assume IH: "\<And>e i u c t y. loop e i u c t = Some y \<Longrightarrow>
      c = 0 \<longrightarrow> i < length (in_pts t) \<longrightarrow> in_pts t ! i < u \<longrightarrow> silence_frame t \<noteq> None \<longrightarrow> False"
    and body: "(if in_pts s ! idx < up_to then
        (case silence_frame s of
           None \<Rightarrow>
            (case silence_frame_init env ss s of
               None \<Rightarrow> None
             | Some (None, s1) \<Rightarrow> Some s1
             | Some (Some f, s1) \<Rightarrow> loop env idx up_to ss (silence_push env idx up_to ss f s1))
         | Some f \<Rightarrow> loop env idx up_to ss (silence_push env idx up_to ss f s))
      else Some s) = Some s'"
  show "ss = 0 \<longrightarrow> idx < length (in_pts s) \<longrightarrow> in_pts s ! idx < up_to
    \<longrightarrow> silence_frame s \<noteq> None \<longrightarrow> False"
  proof (intro impI)
    assume z: "ss = 0" and len: "idx < length (in_pts s)" and lt: "in_pts s ! idx < up_to"
      and sf: "silence_frame s \<noteq> None"
    then obtain f where f: "silence_frame s = Some f" by blast
    let ?s2 = "silence_push env idx up_to ss f s"
    from body lt f have "loop env idx up_to ss ?s2 = Some s'" by simp
    moreover have "in_pts ?s2 = in_pts s" "silence_frame ?s2 \<noteq> None"
      using len by (simp_all add: silence_push_def Let_def emit_def z)
    ultimately show False
      using IH [of env idx up_to ss ?s2 s'] z len lt by simp
  qed
qed

lemma silence_loop_diverges:
  assumes "idx < length (in_pts s)" and "in_pts s ! idx < up_to"
    and "silence_ready env s" and "word_of_int (sint (clockrate s) sdiv 100) = (0 :: 32 word)"
  shows "mix_silence_fill_idx_upto env idx up_to s = None"
proof (cases "silence_frame s")
  case (Some f)
  then show ?thesis
    using silence_loop_stuck [of env idx up_to 0 s] assms
    by (cases "silence_loop env idx up_to 0 s") (simp_all add: mix_silence_fill_idx_upto_def)
next
  case None
  with assms(3) obtain f s1 where init: "silence_frame_init env 0 s = Some (Some f, s1)"
    by (auto simp: silence_ready_def assms(4) split: option.splits prod.splits)
  note i = silence_frame_init_Some [OF init]
  let ?s2 = "silence_push env idx up_to 0 f s1"
  have run: "silence_loop env idx up_to 0 s = silence_loop env idx up_to 0 ?s2"
    using assms(2) None init by (subst silence_loop.simps) simp
  have "in_pts ?s2 = in_pts s" "silence_frame ?s2 \<noteq> None"
    using assms(1) i by (simp_all add: silence_push_def Let_def emit_def)
  then have "silence_loop env idx up_to 0 ?s2 = None"
    using silence_loop_stuck [of env idx up_to 0 ?s2] assms(1,2)
    by (cases "silence_loop env idx up_to 0 ?s2") simp_all
  then show ?thesis
    by (simp add: mix_silence_fill_idx_upto_def assms(4) run)
qed

text \<open>
  C5 as stated fails in four ways. With a clock rate of 50 the chunk size is
  \<open>50 / 100 = 0\<close>: the counter never advances and the loop never ends. When the buffers
  of the silence frame cannot be had, the function returns at once with the counter
  unchanged, short of the target. The frame without buffers stays in the session, and
  the next fill writes it as it is: a chunk of 5 samples with no data. And the silence
  frame outlives a new configuration: made at 200 Hz with room for 2 samples, it is
  written at 8000 Hz as a chunk of 80 samples that still says 200 Hz and still has the 4
  bytes of 2 samples.
\<close>

theorem silence_fill_not_total:
  "silence_ready env_ok (configured env_ok 50)
   \<and> mix_silence_fill_idx_upto env_ok 0 1 (configured env_ok 50) = None
   \<and> map_option in_pts (mix_silence_fill_idx_upto env_nobuf 0 5 (configured env_nobuf 8000))
       = Some [0, 0, 0, 0]
   \<and> map_option (\<lambda>s. (in_pts s, map (\<lambda>g. (nb_samples g, extended_data g)) (written_frames (evs s))))
       (Option.bind (mix_silence_fill_idx_upto env_nobuf 0 5 (configured env_nobuf 8000))
          (mix_silence_fill_idx_upto env_nobuf 0 5))
       = Some ([5, 0, 0, 0], [(5, [])])
   \<and> map_option clockrate refilled = Some 8000
   \<and> map_option (\<lambda>s. map (\<lambda>g. (nb_samples g, sample_rate g, extended_data g))
                       (written_frames (take 1 (evs s))))
       (Option.bind refilled (mix_silence_fill_idx_upto env_ok 1 80))
       = Some [(80, 200, [0, 0, 0, 0])]"
proof -
  have sf: "silence_frame (configured env_ok 50) = None"
    by code_simp
  have "case silence_frame_init env_ok (word_of_int (sint (clockrate (configured env_ok 50)) sdiv 100))
        (configured env_ok 50) of Some (Some f, s1) \<Rightarrow> True | _ \<Rightarrow> False"
    by code_simp
  with sf have r: "silence_ready env_ok (configured env_ok 50)"
    by (simp add: silence_ready_def)
  have "0 < length (in_pts (configured env_ok 50))"
    and "in_pts (configured env_ok 50) ! 0 < 1"
    and "word_of_int (sint (clockrate (configured env_ok 50)) sdiv 100) = (0 :: 32 word)"
    by code_simp+
  then have "mix_silence_fill_idx_upto env_ok 0 1 (configured env_ok 50) = None"
    using r by (intro silence_loop_diverges)
  moreover have "map_option in_pts
      (mix_silence_fill_idx_upto env_nobuf 0 5 (configured env_nobuf 8000)) = Some [0, 0, 0, 0]"
    by code_simp
  moreover have "map_option (\<lambda>s. (in_pts s, map (\<lambda>g. (nb_samples g, extended_data g)) (written_frames (evs s))))
       (Option.bind (mix_silence_fill_idx_upto env_nobuf 0 5 (configured env_nobuf 8000))
          (mix_silence_fill_idx_upto env_nobuf 0 5))
       = Some ([5, 0, 0, 0], [(5, [])])"
    by code_simp
  moreover have "map_option clockrate refilled = Some 8000"
    by code_simp
  moreover have "map_option (\<lambda>s. map (\<lambda>g. (nb_samples g, sample_rate g, extended_data g))
                       (written_frames (take 1 (evs s))))
       (Option.bind refilled (mix_silence_fill_idx_upto env_ok 1 80))
       = Some [(80, 200, [0, 0, 0, 0])]"
    by code_simp
  ultimately show ?thesis using r by simp
qed

lemma silence_ready_later:
  assumes made: "silence_made env s f" and rel: "silence_rel s s'"
    and sf: "silence_frame s' = Some g" and g: "g = f\<lparr>pts := pts g, nb_samples := nb_samples g\<rparr>"
  shows "silence_ready env s'"
proof -
  have "silence_made env s' g"
    using made silence_rel_fields(1,2) [OF rel] g by (rule silence_made_later)
  with sf show ?thesis by (simp add: silence_ready_def)
qed

lemma silence_fill_ready:
  assumes rate: "100 \<le> sint (clockrate s)" and len: "idx < length (in_pts s)"
    and ready: "silence_ready env s"
  shows "\<exists>s' T. mix_silence_fill_idx_upto env idx up_to s = Some s'
      \<and> in_pts s' = (in_pts s)[idx := max (in_pts s ! idx) up_to]
      \<and> silence_ready env s'
      \<and> silence_made env s T
      \<and> format T = AV_SAMPLE_FMT_S16 \<and> sample_rate T = clockrate s
      \<and> channel_layout T = av_get_default_channel_layout env (channels s)
      \<and> set (extended_data T) \<subseteq> {0}
      \<and> (\<exists>new. evs s' = new @ evs s
            \<and> map chunk_of (rev (written_frames new)) =
                (if in_pts s ! idx < up_to
                 then silence_chunks (unat (in_pts s ! idx)) (unat (up_to - in_pts s ! idx))
                        (nat (sint (clockrate s) div 100))
                 else [])
            \<and> (\<forall>g\<in>set (written_frames new). g = T\<lparr>pts := pts g, nb_samples := nb_samples g\<rparr>)
            \<and> (\<forall>c g r. Av_buffersrc_write_frame c g r \<in> set new \<longrightarrow> c = src_ctxs s ! idx))"
proof -
  define ss :: "32 word" where "ss = word_of_int (sint (clockrate s) sdiv 100)"
  from rate have r100: "- 100 < sint (clockrate s)" by simp
  have small: "unat ss < 2 ^ 31" and un: "unat ss = nat (sint (clockrate s) div 100)"
    and pos: "0 < unat ss"
    using silence_samples_small [OF r100] sdiv_100_bounds(3,4) [OF r100] rate
    by (simp_all add: ss_def)
  have fill: "mix_silence_fill_idx_upto env idx up_to s = silence_loop env idx up_to ss s"
    by (simp add: mix_silence_fill_idx_upto_def ss_def)
  have rel: "silence_rel s t" if "silence_loop env idx up_to ss s = Some t" for t
    using silence_loop_weak [OF that] unfolding silence_weak_def by blast
  show ?thesis
  proof (cases "silence_frame s")
    case (Some f)
    with ready have made: "silence_made env s f"
      by (simp add: silence_ready_def)
    note fields = silence_made_fields [OF made]
    from silence_loop_total [OF Some len pos small, of env up_to]
    obtain s' new g where loop: "silence_loop env idx up_to ss s = Some s'"
      and in': "in_pts s' = (in_pts s)[idx := max (in_pts s ! idx) up_to]"
      and ev': "evs s' = new @ evs s"
      and rest: "map chunk_of (rev (written_frames new)) =
                (if in_pts s ! idx < up_to
                 then silence_chunks (unat (in_pts s ! idx)) (unat (up_to - in_pts s ! idx))
                        (nat (sint (clockrate s) div 100))
                 else [])"
        "\<forall>g\<in>set (written_frames new). g = f\<lparr>pts := pts g, nb_samples := nb_samples g\<rparr>"
        "\<forall>c g r. Av_buffersrc_write_frame c g r \<in> set new \<longrightarrow> c = src_ctxs s ! idx"
      and g: "silence_frame s' = Some g" "g = f\<lparr>pts := pts g, nb_samples := nb_samples g\<rparr>"
      unfolding un by blast
    have "silence_ready env s'"
      using made rel [OF loop] g by (rule silence_ready_later)
    with loop in' ev' rest made fields show ?thesis
      unfolding fill by blast
  next
    case None
    with ready obtain f s1 where init: "silence_frame_init env ss s = Some (Some f, s1)"
      by (auto simp: silence_ready_def ss_def split: option.splits prod.splits)
    have made: "silence_made env s f"
      using init unfolding ss_def by (rule silence_made_init)
    note fields = silence_made_fields [OF made]
    from silence_frame_init_Some [OF init]
    obtain new1 where inp: "in_pts s1 = in_pts s"
      and sf1: "silence_frame s1 = Some f"
      and ev1: "evs s1 = new1 @ evs s"
      and nw: "\<forall>c f r. Av_buffersrc_write_frame c f r \<notin> set new1"
      and rel1: "silence_rel s s1"
      by auto
    show ?thesis
    proof (cases "in_pts s ! idx < up_to")
      case False
      then have "silence_loop env idx up_to ss s = Some s"
        by (subst silence_loop.simps) simp
      moreover have "(in_pts s)[idx := max (in_pts s ! idx) up_to] = in_pts s"
        using False by (simp add: max_absorb1)
      moreover have "evs s = [] @ evs s" "written_frames [] = []"
        by simp_all
      ultimately show ?thesis
        using False made fields ready by (simp add: fill) blast
    next
      case lt: True
      have "silence_loop env idx up_to ss s
          = silence_loop env idx up_to ss (silence_push env idx up_to ss f s1)"
        using lt None init by (subst silence_loop.simps) simp
      also have "\<dots> = silence_loop env idx up_to ss s1"
        using lt sf1 inp by (subst (2) silence_loop.simps) simp
      finally have run: "silence_loop env idx up_to ss s = silence_loop env idx up_to ss s1" .
      have len1: "idx < length (in_pts s1)" using len inp by simp
      from silence_loop_total [OF sf1 len1 pos small, of env up_to]
      obtain s' new g where loop: "silence_loop env idx up_to ss s1 = Some s'"
        and in': "in_pts s' = (in_pts s1)[idx := max (in_pts s1 ! idx) up_to]"
        and ev': "evs s' = new @ evs s1"
        and ch: "map chunk_of (rev (written_frames new)) =
                (if in_pts s1 ! idx < up_to
                 then silence_chunks (unat (in_pts s1 ! idx)) (unat (up_to - in_pts s1 ! idx)) (unat ss)
                 else [])"
        and z': "\<forall>g\<in>set (written_frames new). g = f\<lparr>pts := pts g, nb_samples := nb_samples g\<rparr>"
        and c': "\<forall>c g r. Av_buffersrc_write_frame c g r \<in> set new \<longrightarrow> c = src_ctxs s1 ! idx"
        and g: "silence_frame s' = Some g" "g = f\<lparr>pts := pts g, nb_samples := nb_samples g\<rparr>"
        by blast
      have loop0: "silence_loop env idx up_to ss s = Some s'"
        using loop run by simp
      have ready': "silence_ready env s'"
        using made rel [OF loop0] g by (rule silence_ready_later)
      have wf1: "written_frames new1 = []"
        using nw by (rule written_frames_none)
      have src: "src_ctxs s1 = src_ctxs s"
        using silence_rel_fields(5) [OF rel1] .
      have "evs s' = (new @ new1) @ evs s"
        using ev' ev1 by simp
      moreover have "map chunk_of (rev (written_frames (new @ new1))) =
          (if in_pts s ! idx < up_to
           then silence_chunks (unat (in_pts s ! idx)) (unat (up_to - in_pts s ! idx))
            (nat (sint (clockrate s) div 100)) else [])"
        using ch lt by (simp add: written_frames_append wf1 inp un)
      moreover have "\<forall>g\<in>set (written_frames (new @ new1)).
          g = f\<lparr>pts := pts g, nb_samples := nb_samples g\<rparr>"
        using z' by (simp add: written_frames_append wf1)
      moreover have "\<forall>c g r. Av_buffersrc_write_frame c g r \<in> set (new @ new1)
          \<longrightarrow> c = src_ctxs s ! idx"
        using c' nw by (auto simp: src)
      moreover have "in_pts s' = (in_pts s)[idx := max (in_pts s ! idx) up_to]"
        using in' inp by simp
      ultimately show ?thesis
        using loop0 ready' made fields unfolding fill by blast
    qed
  qed
qed

text \<open>
  C5, as the code has it. If the counter of the input is not behind the target, the
  function returns at once and changes nothing. If it is behind, let the clock rate be at
  least 100, so that a chunk has at least one sample, and let the silence frame of the
  session be one that was made, with its buffers, for the clock rate and the channel
  count the session has now, or let there be none yet and its creation succeed. Then
  \<^verbatim>\<open>mix_silence_fill_idx_upto\<close> returns; the counter of the input is the target, and no
  other counter changes; the frames written, in order, are the chunks of
  \<open>clockrate / 100\<close> samples that cover the gap, the last one cut at the target, each
  starting where the one before ended; all go to the source of that input. Every frame
  written is the silence frame \<open>T\<close> with the start and the sample count of the chunk:
  signed 16-bit samples at the clock rate of the session in the default layout of its
  channel count, with the buffer that was obtained for \<open>clockrate / 100\<close> samples and
  cleared. The session is left with that silence frame, ready for the next fill.
\<close>

theorem silence_fill_chunks:
  "(\<not> in_pts s ! idx < up_to \<longrightarrow> mix_silence_fill_idx_upto env idx up_to s = Some s)
   \<and> (in_pts s ! idx < up_to \<longrightarrow> 100 \<le> sint (clockrate s) \<longrightarrow> idx < length (in_pts s)
        \<longrightarrow> silence_ready env s \<longrightarrow>
       (\<exists>s' T. mix_silence_fill_idx_upto env idx up_to s = Some s'
          \<and> in_pts s' = (in_pts s)[idx := max (in_pts s ! idx) up_to]
          \<and> in_pts s' ! idx = up_to
          \<and> silence_ready env s'
          \<and> silence_made env s T
          \<and> format T = AV_SAMPLE_FMT_S16 \<and> sample_rate T = clockrate s
          \<and> channel_layout T = av_get_default_channel_layout env (channels s)
          \<and> set (extended_data T) \<subseteq> {0}
          \<and> (\<exists>new. evs s' = new @ evs s
                \<and> map chunk_of (rev (written_frames new)) =
                    silence_chunks (unat (in_pts s ! idx)) (unat (up_to - in_pts s ! idx))
                      (nat (sint (clockrate s) div 100))
                \<and> (\<forall>g\<in>set (written_frames new). g = T\<lparr>pts := pts g, nb_samples := nb_samples g\<rparr>)
                \<and> (\<forall>c g r. Av_buffersrc_write_frame c g r \<in> set new \<longrightarrow> c = src_ctxs s ! idx))))"
proof (intro conjI impI)
  assume "\<not> in_pts s ! idx < up_to"
  then have "silence_loop env idx up_to (word_of_int (sint (clockrate s) sdiv 100)) s = Some s"
    by (subst silence_loop.simps) simp
  then show "mix_silence_fill_idx_upto env idx up_to s = Some s"
    by (simp add: mix_silence_fill_idx_upto_def)
next
  assume lt: "in_pts s ! idx < up_to" and rate: "100 \<le> sint (clockrate s)"
    and len: "idx < length (in_pts s)" and ready: "silence_ready env s"
  from silence_fill_ready [OF rate len ready, of up_to] obtain s' T new where
    r: "mix_silence_fill_idx_upto env idx up_to s = Some s'"
    "in_pts s' = (in_pts s)[idx := max (in_pts s ! idx) up_to]"
    "silence_made env s T" "format T = AV_SAMPLE_FMT_S16" "sample_rate T = clockrate s"
    "channel_layout T = av_get_default_channel_layout env (channels s)"
    "set (extended_data T) \<subseteq> {0}"
    "evs s' = new @ evs s"
    "map chunk_of (rev (written_frames new)) =
                (if in_pts s ! idx < up_to
                 then silence_chunks (unat (in_pts s ! idx)) (unat (up_to - in_pts s ! idx))
                        (nat (sint (clockrate s) div 100))
                 else [])"
    "\<forall>g\<in>set (written_frames new). g = T\<lparr>pts := pts g, nb_samples := nb_samples g\<rparr>"
    "\<forall>c g r. Av_buffersrc_write_frame c g r \<in> set new \<longrightarrow> c = src_ctxs s ! idx"
    "silence_ready env s'"
    by blast
  from r(2) lt len have "in_pts s' ! idx = up_to"
    by (simp add: max_absorb2)
  moreover from r(9) lt have "map chunk_of (rev (written_frames new)) =
      silence_chunks (unat (in_pts s ! idx)) (unat (up_to - in_pts s ! idx))
        (nat (sint (clockrate s) div 100))"
    by simp
  ultimately show "\<exists>s' T. mix_silence_fill_idx_upto env idx up_to s = Some s'
          \<and> in_pts s' = (in_pts s)[idx := max (in_pts s ! idx) up_to]
          \<and> in_pts s' ! idx = up_to
          \<and> silence_ready env s'
          \<and> silence_made env s T
          \<and> format T = AV_SAMPLE_FMT_S16 \<and> sample_rate T = clockrate s
          \<and> channel_layout T = av_get_default_channel_layout env (channels s)
          \<and> set (extended_data T) \<subseteq> {0}
          \<and> (\<exists>new. evs s' = new @ evs s
                \<and> map chunk_of (rev (written_frames new)) =
                    silence_chunks (unat (in_pts s ! idx)) (unat (up_to - in_pts s ! idx))
                      (nat (sint (clockrate s) div 100))
                \<and> (\<forall>g\<in>set (written_frames new). g = T\<lparr>pts := pts g, nb_samples := nb_samples g\<rparr>)
                \<and> (\<forall>c g r. Av_buffersrc_write_frame c g r \<in> set new \<longrightarrow> c = src_ctxs s ! idx))"
    using r(1,2,3,4,5,6,7,8,10,11,12) by blast
qed

theorem silence_fill_chunks_witness:
  "in_pts (configured env_ok 200) ! 1 < 5
   \<and> 100 \<le> sint (clockrate (configured env_ok 200))
   \<and> 1 < length (in_pts (configured env_ok 200))
   \<and> silence_ready env_ok (configured env_ok 200)
   \<and> mix_silence_fill_idx_upto env_ok 1 5 (configured env_ok 200) = Some filled
   \<and> in_pts filled = [0, 5, 0, 0]
   \<and> silence_chunks 0 5 2 = [(0, 2), (2, 2), (4, 1)]
   \<and> rev (written_frames (evs filled)) = [silence 0 2, silence 2 2, silence 4 1]
   \<and> silence_frame filled = Some (silence 4 1)
   \<and> silence_ready env_ok filled
   \<and> in_pts filled ! 2 < 3 \<and> 100 \<le> sint (clockrate filled) \<and> 2 < length (in_pts filled)
   \<and> map_option in_pts (mix_silence_fill_idx_upto env_ok 2 3 filled) = Some [0, 5, 3, 0]
   \<and> \<not> in_pts (configured env_ok 50) ! 0 < 0
   \<and> mix_silence_fill_idx_upto env_ok 0 0 (configured env_ok 50) = Some (configured env_ok 50)"
proof -
  have sf: "silence_frame (configured env_ok 200) = None"
    by code_simp
  have "case silence_frame_init env_ok (word_of_int (sint (clockrate (configured env_ok 200)) sdiv 100))
        (configured env_ok 200) of Some (Some f, s1) \<Rightarrow> True | _ \<Rightarrow> False"
    by code_simp
  with sf have r: "silence_ready env_ok (configured env_ok 200)"
    by (simp add: silence_ready_def)
  have g: "in_pts (configured env_ok 200) ! 1 < 5"
    by code_simp
  have h: "100 \<le> sint (clockrate (configured env_ok 200))"
    "1 < length (in_pts (configured env_ok 200))"
    by code_simp+
  have f: "mix_silence_fill_idx_upto env_ok 1 5 (configured env_ok 200) = Some filled"
    by code_simp
  have v: "in_pts filled = [0, 5, 0, 0]"
    by code_simp
  have c: "silence_chunks 0 5 2 = [(0, 2), (2, 2), (4, 1)]"
    by code_simp
  have w: "rev (written_frames (evs filled)) = [silence 0 2, silence 2 2, silence 4 1]"
    by code_simp
  have sf2: "silence_frame filled = Some (silence 4 1)"
    by code_simp
  have g2: "in_pts filled ! 2 < 3" "100 \<le> sint (clockrate filled)" "2 < length (in_pts filled)"
    by code_simp+
  have v2: "(in_pts filled)[2 := max (in_pts filled ! 2) 3] = [0, 5, 3, 0]"
    by code_simp
  have n: "\<not> in_pts (configured env_ok 50) ! 0 < 0"
    by simp
  from silence_fill_chunks [of "configured env_ok 200" 1 5 env_ok] g h r f
  have r2: "silence_ready env_ok filled"
    by auto
  from silence_fill_chunks [of filled 2 3 env_ok] g2 r2 obtain s' where
    "mix_silence_fill_idx_upto env_ok 2 3 filled = Some s'"
    "in_pts s' = (in_pts filled)[2 := max (in_pts filled ! 2) 3]"
    by blast
  with v2 have a: "map_option in_pts (mix_silence_fill_idx_upto env_ok 2 3 filled)
      = Some [0, 5, 3, 0]"
    by simp
  from silence_fill_chunks [of "configured env_ok 50" 0 0 env_ok] n
  have b: "mix_silence_fill_idx_upto env_ok 0 0 (configured env_ok 50) = Some (configured env_ok 50)"
    by blast
  from g h r f v c w sf2 r2 g2 a n b show ?thesis
    by blast
qed

text \<open>
  C10. One pass of the silence loop writes a chunk that starts at the counter of the
  input and advances the counter by the sample count of the chunk, whatever the result
  \<open>r\<close> of the write: a failure only adds a warning to the log. Hence every chunk written
  during a fill, whatever the result \<open>r1\<close> of its write, ends at or before the counter
  the fill leaves; and every chunk a later fill of the input writes starts at or after
  that end: a chunk whose write failed is not written again. (In the code the counter is
  advanced before the call of \<^verbatim>\<open>av_buffersrc_write_frame\<close>, and the model gives the call
  the history of the session so advanced.)
\<close>

theorem silence_chunk_counted:
  assumes fill1: "mix_silence_fill_idx_upto env idx up1 s = Some s1"
    and ev1: "evs s1 = new1 @ evs s"
    and w1: "Av_buffersrc_write_frame c1 f1 r1 \<in> set new1"
    and len1: "idx < length (in_pts s)" and rate1: "- 100 < sint (clockrate s)"
    and later: "in_pts s1 ! idx \<le> in_pts s2 ! idx"
    and fill2: "mix_silence_fill_idx_upto env idx up2 s2 = Some s3"
    and ev2: "evs s3 = new2 @ evs s2"
    and w2: "Av_buffersrc_write_frame c2 f2 r2 \<in> set new2"
    and len2: "idx < length (in_pts s2)" and rate2: "- 100 < sint (clockrate s2)"
  shows "(\<exists>g r. evs (silence_push env idx up_to ss f s)
           = (if r = 0 then [] else [Ilog LOG_WARN ''Failed to write silence frame to buffer''])
             @ Av_buffersrc_write_frame (src_ctxs s ! idx) g r # evs s
         \<and> pts g = in_pts s ! idx
         \<and> in_pts (silence_push env idx up_to ss f s)
           = (in_pts s)[idx := in_pts s ! idx + scast (nb_samples g)])
    \<and> pts f1 + scast (nb_samples f1) \<le> in_pts s1 ! idx
    \<and> pts f1 + scast (nb_samples f1) \<le> pts f2"
proof -
  have post1: "silence_post idx up1 s s1"
    using silence_loop_post [OF fill1 [unfolded mix_silence_fill_idx_upto_def]]
      len1 silence_samples_small(1) [OF rate1] by simp
  have post2: "silence_post idx up2 s2 s3"
    using silence_loop_post [OF fill2 [unfolded mix_silence_fill_idx_upto_def]]
      len2 silence_samples_small(1) [OF rate2] by simp
  from post1 ev1 have "writes_within (in_pts s ! idx) (in_pts s1 ! idx) new1"
    by (auto simp: silence_post_def)
  with w1 have end1: "pts f1 + scast (nb_samples f1) \<le> in_pts s1 ! idx"
    unfolding writes_within_def by blast
  from post2 ev2 have "writes_within (in_pts s2 ! idx) (in_pts s3 ! idx) new2"
    by (auto simp: silence_post_def)
  with w2 have "in_pts s2 ! idx \<le> pts f2"
    unfolding writes_within_def by blast
  with end1 later have "pts f1 + scast (nb_samples f1) \<le> pts f2"
    by simp
  moreover have "\<exists>g r. evs (silence_push env idx up_to ss f s)
           = (if r = 0 then [] else [Ilog LOG_WARN ''Failed to write silence frame to buffer''])
             @ Av_buffersrc_write_frame (src_ctxs s ! idx) g r # evs s
         \<and> pts g = in_pts s ! idx
         \<and> in_pts (silence_push env idx up_to ss f s)
           = (in_pts s)[idx := in_pts s ! idx + scast (nb_samples g)]"
    by (simp add: silence_push_def Let_def emit_def)
  ultimately show ?thesis using end1 by blast
qed

theorem silence_chunk_counted_witness:
  "mix_silence_fill_idx_upto env_nowrite 1 3 (configured env_nowrite 200) = Some fill_a
   \<and> evs fill_a = take 6 (evs fill_a) @ evs (configured env_nowrite 200)
   \<and> Av_buffersrc_write_frame (Some 3) (silence 0 2) (- 22) \<in> set (take 6 (evs fill_a))
   \<and> mix_silence_fill_idx_upto env_nowrite 1 5 fill_a = Some fill_b
   \<and> evs fill_b = take 2 (evs fill_b) @ evs fill_a
   \<and> Av_buffersrc_write_frame (Some 3) (silence 3 2) (- 22) \<in> set (take 2 (evs fill_b))
   \<and> 1 < length (in_pts (configured env_nowrite 200))
   \<and> - 100 < sint (clockrate (configured env_nowrite 200))
   \<and> 1 < length (in_pts fill_a) \<and> - 100 < sint (clockrate fill_a)
   \<and> pts (silence 0 2) + scast (nb_samples (silence 0 2)) \<le> in_pts fill_a ! 1
   \<and> pts (silence 0 2) + scast (nb_samples (silence 0 2)) \<le> pts (silence 3 2)"
proof -
  have h1: "mix_silence_fill_idx_upto env_nowrite 1 3 (configured env_nowrite 200) = Some fill_a"
    by code_simp
  have h2: "evs fill_a = take 6 (evs fill_a) @ evs (configured env_nowrite 200)"
    by code_simp
  have h3: "Av_buffersrc_write_frame (Some 3) (silence 0 2) (- 22) \<in> set (take 6 (evs fill_a))"
    by code_simp
  have h4: "1 < length (in_pts (configured env_nowrite 200))"
    by code_simp
  have h5: "- 100 < sint (clockrate (configured env_nowrite 200))"
    by code_simp
  have h6: "in_pts fill_a ! 1 \<le> in_pts fill_a ! 1"
    by simp
  have h7: "mix_silence_fill_idx_upto env_nowrite 1 5 fill_a = Some fill_b"
    by code_simp
  have h8: "evs fill_b = take 2 (evs fill_b) @ evs fill_a"
    by code_simp
  have h9: "Av_buffersrc_write_frame (Some 3) (silence 3 2) (- 22) \<in> set (take 2 (evs fill_b))"
    by code_simp
  have h10: "1 < length (in_pts fill_a)"
    by code_simp
  have h11: "- 100 < sint (clockrate fill_a)"
    by code_simp
  from silence_chunk_counted [OF h1 h2 h3 h4 h5 h6 h7 h8 h9 h10 h11] h1 h2 h3 h4 h5 h7 h8 h9 h10 h11
  show ?thesis by simp
qed

section \<open>The drift bound\<close>

text \<open>
  C1 as stated fails in two ways. First, the session is configured at 200 Hz and the
  buffers of the silence frame cannot be had. A submission of 204 samples on input 0
  returns 0 with the output timestamp at 204; the fill of input 1 returned at the
  failure, so its counter is 0, more than 200 behind. (The fills of inputs 2 and 3 found
  the frame allocated and ran.) Second, a call that returns before the fill of all
  inputs establishes nothing. A session at 200 Hz took 300 samples on input 0, which
  left the other inputs at 100, and was then configured at 100 Hz; the next frame is
  refused by the mixer, \<^verbatim>\<open>mix_add\<close> returns -1, and the other inputs are 200 behind, with
  no failure of the buffers in the whole history.
\<close>

theorem drift_bound_broken:
  "ret_code (mix_add env_nobuf (pcm 0 204) 0 None (configured env_nobuf 200)) = Some 0
   \<and> map_option out_pts (ret_sys (mix_add env_nobuf (pcm 0 204) 0 None (configured env_nobuf 200)))
       = Some 204
   \<and> map_option clockrate (ret_sys (mix_add env_nobuf (pcm 0 204) 0 None (configured env_nobuf 200)))
       = Some 200
   \<and> map_option in_pts (ret_sys (mix_add env_nobuf (pcm 0 204) 0 None (configured env_nobuf 200)))
       = Some [204, 0, 4, 4]
   \<and> map_option (\<lambda>(r, s). (r, out_pts s, clockrate s, in_pts s, buffers_failed \<in> set (evs s)))
       (Option.bind slowed (mix_add env_add_once (pcm 300 10) 0 None))
       = Some (- 1, 300, 100, [300, 100, 100, 100], False)"
  by code_simp

text \<open>
  C1, as the code has it, for every call of \<^verbatim>\<open>mix_add\<close> that returns, whatever its
  result. If the mixer took the frame (the history of the call has the successful
  \<^verbatim>\<open>av_buffersrc_add_frame\<close>), the fill of all inputs ran, and the bound holds when the
  call returns if and only if the buffers of the silence frame did not fail after the
  frame was handed over. (A failure before that, in the fill of the gap before the
  frame, does no harm: the frame without buffers stays and the later fill uses it.)
  If the mixer did not take a frame, because the call was rejected for its index or for
  want of a configuration, or because the mixer refused the frame, the call returns -1
  and leaves the output timestamp and clock rate as they were and no counter lower than
  it was: the bound holds afterwards if it held before.
\<close>

theorem drift_bound:
  assumes add: "mix_add env frame idx outp s = Some (r, s')"
    and ev: "evs s' = new @ evs s"
  shows "((\<exists>c f. Av_buffersrc_add_frame c f 0 \<in> set new) \<longrightarrow>
            (within_drift s' \<longleftrightarrow> buffers_failed \<notin> set (since_add new)))
    \<and> ((\<forall>c f. Av_buffersrc_add_frame c f 0 \<notin> set new) \<longrightarrow>
            r = - 1 \<and> out_pts s' = out_pts s \<and> clockrate s' = clockrate s
            \<and> (\<forall>i. in_pts s ! i \<le> in_pts s' ! i)
            \<and> (within_drift s \<longrightarrow> within_drift s'))"
proof -
  obtain frame1 s1 where oa: "offset_adjust frame (unat idx) s = (frame1, s1)"
    by (cases "offset_adjust frame (unat idx) s")
  note o = offset_adjust_fields [OF oa]
  note mono = mix_add_mono [OF add]
  have keep: "within_drift s \<longrightarrow> within_drift s'"
    if "out_pts s' = out_pts s" "clockrate s' = clockrate s"
  proof
    assume b: "within_drift s"
    show "within_drift s'"
      unfolding within_drift_def
    proof (intro impI allI)
      fix i
      assume "scast (clockrate s') \<le> out_pts s'" and "i < NUM_INPUTS"
      with b that have "out_pts s - scast (clockrate s) \<le> in_pts s ! i"
        by (simp add: within_drift_def)
      also have "\<dots> \<le> in_pts s' ! i" by (rule mono(2))
      finally show "out_pts s' - scast (clockrate s') \<le> in_pts s' ! i"
        using that by simp
    qed
  qed
  from add oa show ?thesis
  proof (cases rule: mix_add_cases)
    case range
    note f = rejected_fields [OF range(2)]
    from f(5) ev have "new = [Av_frame_free (Some frame),
        Ilog LOG_ERR (''Failed to add frame to mixer: '' @ ''index out of range'')]"
      by simp
    then have "\<forall>c f. Av_buffersrc_add_frame c f 0 \<notin> set new" by simp
    with f keep mono(2) show ?thesis by simp
  next
    case uninit
    note f = rejected_fields [OF uninit(3)]
    from f(5) ev have "new = [Av_frame_free (Some frame),
        Ilog LOG_ERR (''Failed to add frame to mixer: '' @ ''mixer not initialized'')]"
      by simp
    then have "\<forall>c f. Av_buffersrc_add_frame c f 0 \<notin> set new" by simp
    with f keep mono(2) show ?thesis by simp
  next
    case (refused s2 ret)
    from mix_silence_fill_idx_upto_weak [OF refused(2)] obtain n1 where
      rel: "silence_rel s1 s2" and n1: "evs s2 = n1 @ evs s1" "\<forall>e\<in>set n1. silence_event e"
      unfolding silence_weak_def by blast
    note f = rejected_fields [OF refused(4)]
    have f': "out_pts s' = out_pts s" "clockrate s' = clockrate s"
      using f(3,4) silence_rel_fields(1,3) [OF rel] o by (simp_all add: emit_def)
    from f(5) have "evs s' = ([Av_frame_free (Some frame1),
        Ilog LOG_ERR (''Failed to add frame to mixer: '' @ ''failed to add frame to mixer''),
        Av_buffersrc_add_frame (src_ctxs s2 ! unat idx) frame1 ret] @ n1) @ evs s"
      by (simp add: emit_def n1(1) o(1))
    with ev have "new = [Av_frame_free (Some frame1),
        Ilog LOG_ERR (''Failed to add frame to mixer: '' @ ''failed to add frame to mixer''),
        Av_buffersrc_add_frame (src_ctxs s2 ! unat idx) frame1 ret] @ n1"
      by simp
    with refused(3) n1(2) silence_event_kind(2)
    have "\<forall>c f. Av_buffersrc_add_frame c f 0 \<notin> set new"
      by auto
    with f(1) f' keep mono(2) show ?thesis by simp
  next
    case (accepted s2 s6 s7)
    from mix_silence_fill_idx_upto_weak [OF accepted(2)] obtain n1 where
      n1: "evs s2 = n1 @ evs s1"
      unfolding silence_weak_def by blast
    have ev6: "evs s6 = Av_frame_free (Some frame1)
        # Av_buffersrc_add_frame (src_ctxs s2 ! unat idx) frame1 0 # n1 @ evs s"
      by (simp add: accepted(3) emit_def update_counters_fields n1 o(1))
    from mix_silence_fill_weak [OF accepted(4)] obtain n3 where
      rel: "silence_rel s6 s7" and n3: "evs s7 = n3 @ evs s6" "\<forall>e\<in>set n3. silence_event e"
      and tgt: "buffers_failed \<notin> set n3 \<longrightarrow> scast (clockrate s6) \<le> out_pts s6 \<longrightarrow>
               (\<forall>i<NUM_INPUTS. \<not> in_pts s7 ! i < out_pts s6 - scast (clockrate s6))"
      by blast
    from mix_drain_post [OF accepted(5)] obtain n4 where
      drel: "drain_rel s7 s'" and n4: "evs s' = n4 @ evs s7" "\<forall>x\<in>set n4. drain_event x"
      unfolding drain_post_def by blast
    let ?a = "n4 @ n3 @ [Av_frame_free (Some frame1)]"
    have "evs s' = (?a @ Av_buffersrc_add_frame (src_ctxs s2 ! unat idx) frame1 0 # n1) @ evs s"
      by (simp add: n4 n3 ev6)
    with ev have new: "new = ?a @ Av_buffersrc_add_frame (src_ctxs s2 ! unat idx) frame1 0 # n1"
      by simp
    have "\<forall>e\<in>set ?a. \<not> add_frame_event e"
      using n3(2) n4(2) silence_not_add drain_not_add by auto
    then have "since_add new = ?a"
      unfolding new by (rule since_add_split)
    moreover have "buffers_failed \<notin> set n4"
      using n4(2) drain_event_kind(2) by blast
    ultimately have since: "buffers_failed \<notin> set (since_add new) \<longleftrightarrow> buffers_failed \<notin> set n3"
      by (simp add: buffers_failed_def)
    have same: "out_pts s' = out_pts s6" "clockrate s' = clockrate s6" "in_pts s' = in_pts s7"
      using drain_rel_fields [OF drel] silence_rel_fields [OF rel] by simp_all
    have "within_drift s' \<longleftrightarrow> buffers_failed \<notin> set n3"
    proof
      assume b: "within_drift s'"
      show "buffers_failed \<notin> set n3"
      proof
        assume "buffers_failed \<in> set n3"
        from mix_silence_fill_failed [OF accepted(4) n3(1) this] obtain i where
          "scast (clockrate s6) \<le> out_pts s6" "i < NUM_INPUTS"
          "in_pts s7 ! i < out_pts s6 - scast (clockrate s6)"
          by blast
        with b show False
          by (auto simp: within_drift_def same)
      qed
    next
      assume "buffers_failed \<notin> set n3"
      with tgt show "within_drift s'"
        by (auto simp: within_drift_def same not_less)
    qed
    with since new show ?thesis by auto
  qed
qed

theorem drift_bound_witness:
  "mix_add env_ok (pcm 0 204) 0 None (configured env_ok 200) = Some (0, added)
   \<and> evs added = take 11 (evs added) @ evs (configured env_ok 200)
   \<and> Av_buffersrc_add_frame (Some 3) (pcm 0 204) 0 \<in> set (take 11 (evs added))
   \<and> buffers_failed \<notin> set (since_add (take 11 (evs added)))
   \<and> within_drift added
   \<and> scast (clockrate added) \<le> out_pts added
   \<and> out_pts added - scast (clockrate added) \<le> in_pts added ! 1
   \<and> mix_add env_ok (pcm 0 204) 4 None added
       = Some (- 1, snd (mix_add_err ''index out of range'' (Some (pcm 0 204)) added))
   \<and> within_drift (snd (mix_add_err ''index out of range'' (Some (pcm 0 204)) added))"
proof -
  let ?s = "snd (mix_add_err ''index out of range'' (Some (pcm 0 204)) added)"
  have h1: "mix_add env_ok (pcm 0 204) 0 None (configured env_ok 200) = Some (0, added)"
    by code_simp
  have h2: "evs added = take 11 (evs added) @ evs (configured env_ok 200)"
    by code_simp
  have h3: "Av_buffersrc_add_frame (Some 3) (pcm 0 204) 0 \<in> set (take 11 (evs added))"
    by code_simp
  have h4: "buffers_failed \<notin> set (since_add (take 11 (evs added)))"
    by code_simp
  have h5: "scast (clockrate added) \<le> out_pts added"
    by code_simp
  have h6: "1 < NUM_INPUTS"
    by (simp add: NUM_INPUTS_def)
  have h7: "mix_add env_ok (pcm 0 204) 4 None added = Some (- 1, ?s)"
    by (simp add: mix_add_def NUM_INPUTS_def mix_add_err_def)
  have h8: "evs ?s = [Av_frame_free (Some (pcm 0 204)),
      Ilog LOG_ERR (''Failed to add frame to mixer: '' @ ''index out of range'')] @ evs added"
    by (simp add: mix_add_err_def emit_def)
  have h9: "\<forall>c f. Av_buffersrc_add_frame c f 0 \<notin> set [Av_frame_free (Some (pcm 0 204)),
      Ilog LOG_ERR (''Failed to add frame to mixer: '' @ ''index out of range'')]"
    by simp
  from drift_bound [OF h1 h2] h3 h4 have b: "within_drift added"
    by blast
  with h5 h6 have c: "out_pts added - scast (clockrate added) \<le> in_pts added ! 1"
    by (simp add: within_drift_def)
  from drift_bound [OF h7 h8] h9 b have d: "within_drift ?s"
    by blast
  from h1 h2 h3 h4 b h5 c h7 d show ?thesis
    by blast
qed

section \<open>A frame of the session freed by the loop\<close>

text \<open>When the pull from the mixer fails after a frame went to the sink, the variable
  \<^verbatim>\<open>frame\<close> still holds the address of the frame of the sink, and the label \<^verbatim>\<open>err\<close>
  frees it: \<^verbatim>\<open>mix_add\<close> returns -1 and leaves \<^verbatim>\<open>mix->sink_frame\<close> dangling. The next
  submission that reaches the loop uses the freed frame and has no defined result.\<close>

lemma mix_drain_freed: "sink_frame s = Freed \<Longrightarrow> mix_drain env outp fr s = None"
  by (subst mix_drain.simps) simp

lemma pull_error_frees_sink_frame:
  "map_option (\<lambda>(r, s). (r, sink_frame s, take 3 (evs s))) pulled
     = Some (- 1, Freed,
         [Av_frame_free (Some frame0),
          Ilog LOG_ERR ''Failed to add frame to mixer: failed to get frame from mixer'',
          Av_buffersink_get_frame (Some 3) (- 5)])
   \<and> Option.bind pulled (\<lambda>(r, s). mix_add env_pull_fails (pcm 160 160) 0 None s) = None"
  by code_simp

section \<open>Failure of the output sink\<close>

lemma mix_drain_sink_fails:
  assumes "\<not> fst (drain_pull env s0) <s 0" and "sink_frame (snd (drain_pull env s0)) = Frame g"
    and "drain_forward env outp g (snd (drain_pull env s0)) = Some w" and "fst w \<noteq> 0"
  shows "mix_drain env outp fr s0 = Some (- 1, snd (snd w))"
proof -
  from assms(2) have "sink_frame s0 \<noteq> Freed"
    by (auto simp: drain_pull_def Let_def split: if_splits)
  with assms show ?thesis
    by (subst mix_drain.simps) (simp add: Let_def)
qed

text \<open>
  C6. If during a call of \<^verbatim>\<open>mix_add\<close> the output sink reports a failure for a frame, the
  call returns -1; the failing \<^verbatim>\<open>output_add\<close> is followed by the release of the sink's
  frame only, so nothing more is pulled from the mixer or sent to the sink, and it is
  the only failure of the sink in the call. The counters of the session are those the
  loop started with: nothing is rolled back and nothing else is changed. And the call
  does return at that point: a pass of the loop in which the pull succeeds, the
  conversion returns and the sink fails ends the loop with -1, in the state the release
  of the sink's frame leaves.
\<close>

theorem sink_failure_aborts:
  assumes add: "mix_add env frame idx outp s = Some (r, s')"
    and ev: "evs s' = new @ evs s"
    and fail: "Output_add out fo ret \<in> set new" and ret: "ret \<noteq> 0"
  shows "r = - 1
    \<and> (\<exists>u rest. new = Av_frame_unref u # Output_add out fo ret # rest
          \<and> (\<forall>x\<in>set rest. \<not> failed_output x))
    \<and> (\<exists>s0. mix_drain env outp None s0 = Some (r, s')
          \<and> in_pts s' = in_pts s0 \<and> out_pts s' = out_pts s0 \<and> pts_offs s' = pts_offs s0
          \<and> next_idx s' = next_idx s0 \<and> src_ctxs s' = src_ctxs s0)
    \<and> (\<forall>s0 g fr w. \<not> fst (drain_pull env s0) <s 0
          \<longrightarrow> sink_frame (snd (drain_pull env s0)) = Frame g
          \<longrightarrow> drain_forward env outp g (snd (drain_pull env s0)) = Some w
          \<longrightarrow> fst w \<noteq> 0
          \<longrightarrow> mix_drain env outp fr s0 = Some (- 1, snd (snd w)))"
proof -
  have now: "\<forall>s0 g fr w. \<not> fst (drain_pull env s0) <s 0
          \<longrightarrow> sink_frame (snd (drain_pull env s0)) = Frame g
          \<longrightarrow> drain_forward env outp g (snd (drain_pull env s0)) = Some w
          \<longrightarrow> fst w \<noteq> 0
          \<longrightarrow> mix_drain env outp fr s0 = Some (- 1, snd (snd w))"
    using mix_drain_sink_fails by blast
  obtain frame1 s1 where oa: "offset_adjust frame (unat idx) s = (frame1, s1)"
    by (cases "offset_adjust frame (unat idx) s")
  note o = offset_adjust_fields [OF oa]
  from add oa show ?thesis
  proof (cases rule: mix_add_cases)
    case range
    then have "evs s' = [Av_frame_free (Some frame),
        Ilog LOG_ERR (''Failed to add frame to mixer: '' @ ''index out of range'')] @ evs s"
      by (auto simp: mix_add_err_def emit_def)
    with ev fail show ?thesis by auto
  next
    case uninit
    then have "evs s' = [Av_frame_free (Some frame),
        Ilog LOG_ERR (''Failed to add frame to mixer: '' @ ''mixer not initialized'')] @ evs s"
      by (auto simp: mix_add_err_def emit_def)
    with ev fail show ?thesis by auto
  next
    case (refused s2 ret')
    from mix_silence_fill_idx_upto_weak [OF refused(2)] obtain n1 where
      n1: "evs s2 = n1 @ evs s1" "\<forall>e\<in>set n1. silence_event e"
      unfolding silence_weak_def by blast
    from refused(4) have "evs s' = ([Av_frame_free (Some frame1),
        Ilog LOG_ERR (''Failed to add frame to mixer: '' @ ''failed to add frame to mixer''),
        Av_buffersrc_add_frame (src_ctxs s2 ! unat idx) frame1 ret'] @ n1) @ evs s"
      by (auto simp: mix_add_err_def emit_def n1(1) o(1))
    with ev have "new = [Av_frame_free (Some frame1),
        Ilog LOG_ERR (''Failed to add frame to mixer: '' @ ''failed to add frame to mixer''),
        Av_buffersrc_add_frame (src_ctxs s2 ! unat idx) frame1 ret'] @ n1"
      by simp
    with fail n1(2) silence_event_kind(3) show ?thesis
      by auto
  next
    case (accepted s2 s6 s7)
    from mix_silence_fill_idx_upto_weak [OF accepted(2)] obtain n1 where
      n1: "evs s2 = n1 @ evs s1" "\<forall>e\<in>set n1. silence_event e"
      unfolding silence_weak_def by blast
    have ev6: "evs s6 = Av_frame_free (Some frame1)
        # Av_buffersrc_add_frame (src_ctxs s2 ! unat idx) frame1 0 # n1 @ evs s"
      by (simp add: accepted(3) emit_def update_counters_fields n1 o(1))
    from mix_silence_fill_weak [OF accepted(4)] obtain n3 where
      n3: "evs s7 = n3 @ evs s6" "\<forall>e\<in>set n3. silence_event e"
      by blast
    from mix_drain_post [OF accepted(5)] obtain n4 where
      drel: "drain_rel s7 s'" and n4: "evs s' = n4 @ evs s7"
      and post: "(\<exists>x\<in>set n4. failed_output x) \<longrightarrow> r = - 1
        \<and> (\<exists>u out f ret rest. n4 = Av_frame_unref u # Output_add out f ret # rest
              \<and> ret \<noteq> 0 \<and> (\<forall>x\<in>set rest. \<not> failed_output x))"
      unfolding drain_post_def by blast
    let ?old = "n3 @ Av_frame_free (Some frame1)
        # Av_buffersrc_add_frame (src_ctxs s2 ! unat idx) frame1 0 # n1"
    have "evs s' = (n4 @ ?old) @ evs s"
      by (simp add: n4 n3 ev6)
    with ev have new: "new = n4 @ ?old"
      by simp
    have old: "\<forall>x\<in>set ?old. \<not> failed_output x \<and> x \<noteq> Output_add out fo ret"
      using n1(2) n3(2) silence_event_kind(1,3) by auto
    with fail new have in4: "Output_add out fo ret \<in> set n4"
      by auto
    with ret have "\<exists>x\<in>set n4. failed_output x"
      by (intro bexI [of _ "Output_add out fo ret"]) simp_all
    with post obtain u out' f' ret' rest where r: "r = - 1"
      and eq: "n4 = Av_frame_unref u # Output_add out' f' ret' # rest"
      and rest: "\<forall>x\<in>set rest. \<not> failed_output x"
      by blast
    from in4 eq rest ret have "Output_add out' f' ret' = Output_add out fo ret"
      by auto
    with eq new have "new = Av_frame_unref u # Output_add out fo ret # (rest @ ?old)"
      by simp
    moreover have "\<forall>x\<in>set (rest @ ?old). \<not> failed_output x"
      using rest old by auto
    moreover have "in_pts s' = in_pts s7" "out_pts s' = out_pts s7" "pts_offs s' = pts_offs s7"
      "next_idx s' = next_idx s7" "src_ctxs s' = src_ctxs s7"
      using drain_rel_fields [OF drel] by simp_all
    ultimately show ?thesis
      using r accepted(5) now by blast
  qed
qed

theorem sink_failure_aborts_witness:
  "mix_add env_sink_fails (pcm 0 160) 0 None (configured env_sink_fails 8000) = Some (- 1, sunk)
   \<and> evs sunk = take 5 (evs sunk) @ evs (configured env_sink_fails 8000)
   \<and> Output_add None (Some (pcm 0 160)) (- 1) \<in> set (take 5 (evs sunk))
   \<and> (- 1 :: i32) \<noteq> 0
   \<and> (\<exists>u rest. take 5 (evs sunk) = Av_frame_unref u # Output_add None (Some (pcm 0 160)) (- 1) # rest
         \<and> (\<forall>x\<in>set rest. \<not> failed_output x))
   \<and> \<not> fst (drain_pull env_sink_fails (configured env_sink_fails 8000)) <s 0
   \<and> sink_frame (snd (drain_pull env_sink_fails (configured env_sink_fails 8000)))
       = Frame (pcm 0 160)
   \<and> map_option fst (drain_forward env_sink_fails None (pcm 0 160)
          (snd (drain_pull env_sink_fails (configured env_sink_fails 8000)))) = Some (- 1)
   \<and> mix_drain env_sink_fails None None (configured env_sink_fails 8000)
       = map_option (\<lambda>w. (- 1, snd (snd w))) (drain_forward env_sink_fails None (pcm 0 160)
           (snd (drain_pull env_sink_fails (configured env_sink_fails 8000))))"
proof -
  have h1: "mix_add env_sink_fails (pcm 0 160) 0 None (configured env_sink_fails 8000)
      = Some (- 1, sunk)"
    by code_simp
  have h2: "evs sunk = take 5 (evs sunk) @ evs (configured env_sink_fails 8000)"
    by code_simp
  have h3: "Output_add None (Some (pcm 0 160)) (- 1) \<in> set (take 5 (evs sunk))"
    by code_simp
  have h4: "(- 1 :: i32) \<noteq> 0"
    by simp
  have h5: "\<not> fst (drain_pull env_sink_fails (configured env_sink_fails 8000)) <s 0"
    by code_simp
  have h6: "sink_frame (snd (drain_pull env_sink_fails (configured env_sink_fails 8000)))
      = Frame (pcm 0 160)"
    by code_simp
  have h7: "map_option fst (drain_forward env_sink_fails None (pcm 0 160)
      (snd (drain_pull env_sink_fails (configured env_sink_fails 8000)))) = Some (- 1)"
    by code_simp
  then obtain w where w: "drain_forward env_sink_fails None (pcm 0 160)
      (snd (drain_pull env_sink_fails (configured env_sink_fails 8000))) = Some w"
    and w1: "fst w = - 1"
    by auto
  from w1 have w2: "fst w \<noteq> 0"
    by simp
  note t = sink_failure_aborts [OF h1 h2 h3 h4]
  from t have a: "\<exists>u rest. take 5 (evs sunk)
        = Av_frame_unref u # Output_add None (Some (pcm 0 160)) (- 1) # rest
      \<and> (\<forall>x\<in>set rest. \<not> failed_output x)"
    by blast
  from t h5 h6 w w2
  have "mix_drain env_sink_fails None None (configured env_sink_fails 8000)
      = Some (- 1, snd (snd w))"
    by blast
  then have b: "mix_drain env_sink_fails None None (configured env_sink_fails 8000)
       = map_option (\<lambda>w. (- 1, snd (snd w))) (drain_forward env_sink_fails None (pcm 0 160)
           (snd (drain_pull env_sink_fails (configured env_sink_fails 8000))))"
    by (simp add: w)
  from h1 h2 h3 h4 a h5 h6 h7 b show ?thesis
    by blast
qed

section \<open>Failure of the conversion\<close>

text \<open>
  C8 at a failing input. The mixer delivers a frame that is not of signed 16-bit samples
  and the converter cannot be allocated. \<^verbatim>\<open>mix_resample_frame\<close> logs the error and returns
  NULL; \<^verbatim>\<open>mix_add\<close> does not look at the result and calls \<^verbatim>\<open>output_add\<close> with the NULL
  frame. The sink of this environment answers 0, so the loop goes on to the next pull.
  The six newest events of the call, newest first:
\<close>

theorem null_frame_reaches_sink:
  "map_option (\<lambda>s. take 6 (evs s))
     (ret_sys (mix_add env_no_resampler (pcm 0 160) 0 None (configured env_no_resampler 8000)))
   = Some [Av_buffersink_get_frame (Some 3) AVERROR_EAGAIN,
           Av_frame_unref (Some ((pcm 0 160)\<lparr>format := 8\<rparr>)),
           Output_add None None 0,
           Ilog LOG_ERR ''Error resampling: failed to alloc resample context'',
           Avresample_alloc_context None,
           Av_buffersink_get_frame (Some 3) 0]"
  by code_simp

section \<open>The timeline\<close>

lemma timeline_free_ctx [simp]: "timeline (free_ctx p s) = timeline s"
  by (cases p) (simp_all add: free_ctx_def emit_def timeline_def)

lemma timeline_shutdown_inputs [simp]: "timeline (shutdown_inputs is s) = timeline s"
proof (induction "is" arbitrary: s)
  case Nil
  show ?case by simp
next
  case (Cons i "is")
  have "timeline ((free_ctx (src_ctxs s ! i) s)\<lparr>src_ctxs := (src_ctxs s)[i := None]\<rparr>)
      = timeline (free_ctx (src_ctxs s ! i) s)"
    by (simp add: timeline_def)
  with Cons show ?case by simp
qed

lemma timeline_update [simp]:
  "timeline (s\<lparr>amix_ctx := a\<rparr>) = timeline s" "timeline (s\<lparr>sink_ctx := a\<rparr>) = timeline s"
  "timeline (s\<lparr>avresample := a\<rparr>) = timeline s" "timeline (s\<lparr>graph := a\<rparr>) = timeline s"
  "timeline (s\<lparr>src_ctxs := b\<rparr>) = timeline s" "timeline (s\<lparr>clockrate := c\<rparr>) = timeline s"
  "timeline (s\<lparr>channels := c\<rparr>) = timeline s" "timeline (s\<lparr>next_idx := c\<rparr>) = timeline s"
  by (simp_all add: timeline_def)

lemma timeline_emit [simp]: "timeline (emit e s) = timeline s"
  by (simp add: timeline_def emit_def)

lemma timeline_mix_shutdown [simp]: "timeline (mix_shutdown s) = timeline s"
  by (simp add: mix_shutdown_def Let_def)

lemma timeline_config_inputs [simp]:
  "timeline (snd (config_inputs env flt is s)) = timeline s"
proof (induction "is" arbitrary: s)
  case Nil
  show ?case by simp
next
  case (Cons i "is")
  show ?case
    by (simp add: Let_def Cons)
qed

lemma timeline_attempt:
  assumes "timeline (snd r) = timeline s" and "\<And>t. timeline (snd (stage t)) = timeline t"
  shows "timeline (snd (attempt r stage)) = timeline s"
  using assms by (cases "fst r") (simp_all add: attempt_def)

lemma timeline_stages [simp]:
  "timeline (snd (config_graph env cr ch s)) = timeline s"
  "timeline (snd (config_amix env s)) = timeline s"
  "timeline (snd (config_abuffers env s)) = timeline s"
  "timeline (snd (config_sink env s)) = timeline s"
  "timeline (snd (config_finish env s)) = timeline s"
  by (simp_all add: config_graph_def config_amix_def config_abuffers_def config_sink_def
      config_finish_def Let_def)

lemma timeline_config_build [simp]: "timeline (snd (config_build env cr ch s)) = timeline s"
  unfolding config_build_def by (intro timeline_attempt) simp_all

lemma mix_config_timeline:
  "in_pts (snd (mix_config env cr ch s)) = in_pts s"
  "out_pts (snd (mix_config env cr ch s)) = out_pts s"
proof -
  obtain e s1 where cb: "config_build env cr ch s = (e, s1)"
    by (cases "config_build env cr ch s")
  have "timeline s1 = timeline s"
    using timeline_config_build [of env cr ch s] by (simp add: cb)
  then have "timeline (snd (format_mismatch env cr ch s)) = timeline s"
    by (cases e; simp add: format_mismatch_def cb)
  then have "timeline (snd (mix_config env cr ch s)) = timeline s"
    by (simp add: mix_config_def)
  then show "in_pts (snd (mix_config env cr ch s)) = in_pts s"
    "out_pts (snd (mix_config env cr ch s)) = out_pts s"
    by (simp_all add: timeline_def)
qed

lemma step_same:
  assumes "step env op s = Some s'" and "\<And>frame idx outp. op \<noteq> Add frame idx outp"
  shows "in_pts s' = in_pts s" "out_pts s' = out_pts s"
proof -
  have "in_pts s' = in_pts s \<and> out_pts s' = out_pts s"
  proof (cases op)
    case (Config cr ch)
    with assms(1) have "s' = snd (mix_config env cr ch s)" by simp
    then show ?thesis by (simp add: mix_config_timeline)
  next
    case Get_index
    with assms(1) have "s' = s\<lparr>next_idx := next_idx s + 1\<rparr>"
      by (simp add: mix_get_index_def)
    then show ?thesis by simp
  next
    case (Add frame idx outp)
    with assms(2) [of frame idx outp] show ?thesis by simp
  qed
  then show "in_pts s' = in_pts s" "out_pts s' = out_pts s" by simp_all
qed

lemma step_mono:
  assumes st: "step env op s = Some s'"
  shows "out_pts s \<le> out_pts s'" "in_pts s ! j \<le> in_pts s' ! j"
proof -
  have "out_pts s \<le> out_pts s' \<and> in_pts s ! j \<le> in_pts s' ! j"
  proof (cases "\<exists>frame idx outp. op = Add frame idx outp")
    case True
    then obtain frame idx outp where op: "op = Add frame idx outp" by blast
    with st obtain r where "mix_add env frame idx outp s = Some (r, s')"
      by (auto simp: ret_sys_def)
    from mix_add_mono [OF this] show ?thesis by simp
  next
    case False
    with step_same [OF st] show ?thesis by simp
  qed
  then show "out_pts s \<le> out_pts s'" "in_pts s ! j \<le> in_pts s' ! j" by simp_all
qed

lemma max_iff_tracked:
  assumes "output_reached s"
  shows "output_max s \<longleftrightarrow> tracked_inputs s"
  unfolding output_max_def
proof
  from assms have len: "length (in_pts s) = NUM_INPUTS"
    unfolding output_reached_def by simp
  assume eq: "out_pts s = Max (set (in_pts s))"
  show "tracked_inputs s"
    unfolding tracked_inputs_def
  proof (intro allI impI)
    fix i
    assume "i < NUM_INPUTS"
    with len have "in_pts s ! i \<in> set (in_pts s)" by simp
    then show "in_pts s ! i \<le> out_pts s"
      unfolding eq by (intro Max_ge) simp_all
  qed
next
  from assms obtain i where len: "length (in_pts s) = NUM_INPUTS"
    and i: "i < NUM_INPUTS" "out_pts s \<le> in_pts s ! i"
    unfolding output_reached_def by blast
  assume tr: "tracked_inputs s"
  with i have "in_pts s ! i = out_pts s"
    unfolding tracked_inputs_def by (intro order.antisym) simp_all
  with i(1) len have "out_pts s \<in> set (in_pts s)"
    by (metis nth_mem)
  moreover have "y \<le> out_pts s" if "y \<in> set (in_pts s)" for y
    using that tr len unfolding tracked_inputs_def by (auto simp: in_set_conv_nth)
  ultimately show "out_pts s = Max (set (in_pts s))"
    by (intro Max_eqI [symmetric]) simp_all
qed

lemma output_reached_new: "output_reached (mix_new env)"
  by (auto simp: output_reached_def mix_new_def NUM_INPUTS_def intro!: exI [of _ 0])

lemma tracked_inputs_new: "tracked_inputs (mix_new env)"
  by (simp add: tracked_inputs_def mix_new_def)

lemma mix_add_length:
  assumes add: "mix_add env frame idx outp s = Some (r, s')"
  shows "length (in_pts s') = length (in_pts s)"
proof -
  obtain frame1 s1 where oa: "offset_adjust frame (unat idx) s = (frame1, s1)"
    by (cases "offset_adjust frame (unat idx) s")
  note o = offset_adjust_fields [OF oa]
  from add oa show ?thesis
  proof (cases rule: mix_add_cases)
    case range
    from rejected_fields [OF range(2)] show ?thesis by simp
  next
    case uninit
    from rejected_fields [OF uninit(3)] show ?thesis by simp
  next
    case (refused s2 ret)
    from mix_silence_fill_idx_upto_weak [OF refused(2)]
    have "length (in_pts s2) = length (in_pts s1)"
      unfolding silence_weak_def by blast
    with rejected_fields(2) [OF refused(4)] show ?thesis
      by (simp add: emit_def o)
  next
    case (accepted s2 s6 s7)
    from mix_silence_fill_idx_upto_weak [OF accepted(2)]
    have "length (in_pts s2) = length (in_pts s1)"
      unfolding silence_weak_def by blast
    moreover have "length (in_pts s6) = length (in_pts s2)"
      by (simp add: accepted(3) emit_def update_counters_fields)
    moreover from mix_silence_fill_weak [OF accepted(4)]
    have "length (in_pts s7) = length (in_pts s6)" by blast
    moreover from mix_drain_post [OF accepted(5)] have "in_pts s' = in_pts s7"
      unfolding drain_post_def using drain_rel_fields(10) by blast
    ultimately show ?thesis by (simp add: o)
  qed
qed

text \<open>When \<^verbatim>\<open>mix_add\<close> raises the output timestamp, it raises it to the end of the frame,
  and the counter of the input of the frame is not below that.\<close>

lemma mix_add_raised:
  assumes add: "mix_add env frame idx outp s = Some (r, s')"
    and len: "length (in_pts s) = NUM_INPUTS" and up: "out_pts s < out_pts s'"
  shows "unat idx < NUM_INPUTS \<and> out_pts s' \<le> in_pts s' ! unat idx"
proof -
  obtain frame1 s1 where oa: "offset_adjust frame (unat idx) s = (frame1, s1)"
    by (cases "offset_adjust frame (unat idx) s")
  note o = offset_adjust_fields [OF oa]
  from add oa show ?thesis
  proof (cases rule: mix_add_cases)
    case range
    from rejected_fields [OF range(2)] up show ?thesis by simp
  next
    case uninit
    from rejected_fields [OF uninit(3)] up show ?thesis by simp
  next
    case (refused s2 ret)
    from mix_silence_fill_idx_upto_weak [OF refused(2)] have rel: "silence_rel s1 s2"
      unfolding silence_weak_def by blast
    from rejected_fields(3) [OF refused(4)] silence_rel_fields(3) [OF rel] o up
    show ?thesis by (simp add: emit_def)
  next
    case (accepted s2 s6 s7)
    let ?nx = "pts frame1 + scast (nb_samples frame1)"
    from mix_silence_fill_idx_upto_weak [OF accepted(2)] have rel: "silence_rel s1 s2"
      and len2: "length (in_pts s2) = length (in_pts s1)"
      unfolding silence_weak_def by blast+
    have i2: "unat idx < length (in_pts s2)"
      using accepted(1) len len2 o(2) by simp
    have f6: "out_pts s6 = max (out_pts s) ?nx"
      "in_pts s6 ! unat idx = max (in_pts s2 ! unat idx) ?nx"
      using i2 silence_rel_fields(3) [OF rel] o
      by (simp_all add: accepted(3) emit_def update_counters_fields)
    from mix_silence_fill_weak [OF accepted(4)] have rel7: "silence_rel s6 s7"
      by blast
    from mix_drain_post [OF accepted(5)] have drel: "drain_rel s7 s'"
      unfolding drain_post_def by blast
    have f': "out_pts s' = out_pts s6" "in_pts s' = in_pts s7"
      using drain_rel_fields [OF drel] silence_rel_fields [OF rel7] by simp_all
    from up have "out_pts s' = ?nx"
      by (simp add: f' f6 max_def split: if_splits)
    moreover have "?nx \<le> in_pts s6 ! unat idx"
      by (simp add: f6)
    moreover have "in_pts s6 ! unat idx \<le> in_pts s7 ! unat idx"
      using accepted(4) by (rule mix_silence_fill_mono)
    ultimately show ?thesis
      using accepted(1) by (simp add: f')
  qed
qed

lemma step_reached:
  assumes st: "step env op s = Some s'" and re: "output_reached s"
  shows "output_reached s'"
proof (cases "\<exists>frame idx outp. op = Add frame idx outp")
  case False
  with step_same [OF st] re show ?thesis
    by (simp add: output_reached_def)
next
  case True
  then obtain frame idx outp where op: "op = Add frame idx outp" by blast
  with st obtain r where add: "mix_add env frame idx outp s = Some (r, s')"
    by (auto simp: ret_sys_def)
  from re obtain i where len: "length (in_pts s) = NUM_INPUTS"
    and i: "i < NUM_INPUTS" "out_pts s \<le> in_pts s ! i"
    unfolding output_reached_def by blast
  have len': "length (in_pts s') = NUM_INPUTS"
    using mix_add_length [OF add] len by simp
  show ?thesis
  proof (cases "out_pts s < out_pts s'")
    case True
    from mix_add_raised [OF add len True] len' show ?thesis
      unfolding output_reached_def by blast
  next
    case False
    with mix_add_mono(1) [OF add] have "out_pts s' = out_pts s" by simp
    with i(2) mix_add_mono(2) [OF add, of i] have "out_pts s' \<le> in_pts s' ! i" by simp
    with i(1) len' show ?thesis
      unfolding output_reached_def by blast
  qed
qed

lemma not_add_keeps: "\<not> add_frame_event e \<Longrightarrow> frame_keeps out failed e"
  by (cases e) simp_all

lemma add_keeps_none:
  assumes "evs s' = new @ evs s" and "\<forall>e\<in>set new. \<not> add_frame_event e"
  shows "add_keeps s s'"
  using assms by (simp add: add_keeps_def history_since_append list_all_iff not_add_keeps)

lemma add_keeps_one:
  assumes "evs s' = (a @ Av_buffersrc_add_frame c f r # b) @ evs s"
    and "\<forall>e\<in>set a. \<not> add_frame_event e" and "\<forall>e\<in>set b. \<not> add_frame_event e"
  shows "add_keeps s s' \<longleftrightarrow>
    pts f \<le> out_pts s \<or> buffers_failed \<in> set b \<or> (r = 0 \<and> pts f \<le> pts f + scast (nb_samples f))"
  using assms
  by (simp add: add_keeps_def history_since_append since_add_split list_all_iff
      not_add_keeps ball_Un)

text \<open>The heart of the matter: from a session in which no counter is beyond the output
  timestamp, \<^verbatim>\<open>mix_add\<close> leads to such a session again exactly if the frame keeps to the
  conditions above.\<close>

lemma add_keeps_iff:
  assumes add: "mix_add env frame idx outp s = Some (r, s')"
    and len: "length (in_pts s) = NUM_INPUTS" and tr: "tracked_inputs s"
    and rate: "- 100 < sint (clockrate s)"
  shows "tracked_inputs s' \<longleftrightarrow> add_keeps s s'"
proof -
  obtain frame1 s1 where oa: "offset_adjust frame (unat idx) s = (frame1, s1)"
    by (cases "offset_adjust frame (unat idx) s")
  note o = offset_adjust_fields [OF oa]
  let ?i = "unat idx"
  let ?P = "pts frame1"
  let ?nx = "pts frame1 + scast (nb_samples frame1)"
  from tr have ub: "\<And>j. j < NUM_INPUTS \<Longrightarrow> in_pts s ! j \<le> out_pts s"
    unfolding tracked_inputs_def by simp
  from add oa show ?thesis
  proof (cases rule: mix_add_cases)
    case range
    note f = rejected_fields [OF range(2)]
    from f(5) have "add_keeps s s'"
      by (rule add_keeps_none) simp
    moreover from f tr have "tracked_inputs s'"
      by (simp add: tracked_inputs_def)
    ultimately show ?thesis by simp
  next
    case uninit
    note f = rejected_fields [OF uninit(3)]
    from f(5) have "add_keeps s s'"
      by (rule add_keeps_none) simp
    moreover from f tr have "tracked_inputs s'"
      by (simp add: tracked_inputs_def)
    ultimately show ?thesis by simp
  next
    case (refused s2 ret)
    have i: "?i < length (in_pts s1)" using refused(1) len o(2) by simp
    have r1: "- 100 < sint (clockrate s1)" using rate o(4) by simp
    from mix_silence_fill_idx_upto_post [OF refused(2) i r1] obtain n1 where
      rel: "silence_rel s1 s2"
      and oth: "\<forall>j. j \<noteq> ?i \<longrightarrow> in_pts s2 ! j = in_pts s1 ! j"
      and hi: "in_pts s2 ! ?i \<le> max (in_pts s1 ! ?i) ?P"
      and n1: "evs s2 = n1 @ evs s1" "\<forall>e\<in>set n1. silence_event e"
      and full: "buffers_failed \<notin> set n1 \<longrightarrow> \<not> in_pts s2 ! ?i < ?P"
      unfolding silence_post_def by blast
    have bad: "buffers_failed \<in> set n1 \<Longrightarrow> in_pts s2 = in_pts s1"
      using mix_silence_fill_idx_upto_failed(1) [OF refused(2) n1(1)] .
    note f = rejected_fields [OF refused(4)]
    have f': "in_pts s' = in_pts s2" "out_pts s' = out_pts s"
      using f(2,3) silence_rel_fields(3) [OF rel] o by (simp_all add: emit_def)
    from f(5) have "evs s' = ([Av_frame_free (Some frame1),
        Ilog LOG_ERR (''Failed to add frame to mixer: '' @ ''failed to add frame to mixer'')]
        @ Av_buffersrc_add_frame (src_ctxs s2 ! ?i) frame1 ret # n1) @ evs s"
      by (simp add: emit_def n1(1) o(1))
    from add_keeps_one [OF this] n1(2) silence_not_add refused(3)
    have keeps: "add_keeps s s' \<longleftrightarrow> ?P \<le> out_pts s \<or> buffers_failed \<in> set n1"
      by auto
    have "tracked_inputs s' \<longleftrightarrow> in_pts s2 ! ?i \<le> out_pts s"
    proof
      assume "tracked_inputs s'"
      with refused(1) show "in_pts s2 ! ?i \<le> out_pts s"
        by (simp add: tracked_inputs_def f')
    next
      assume a: "in_pts s2 ! ?i \<le> out_pts s"
      show "tracked_inputs s'"
        unfolding tracked_inputs_def
      proof (intro allI impI)
        fix j
        assume "j < NUM_INPUTS"
        with a oth ub [of j] o(2) show "in_pts s' ! j \<le> out_pts s'"
          by (cases "j = ?i") (simp_all add: f')
      qed
    qed
    also have "\<dots> \<longleftrightarrow> ?P \<le> out_pts s \<or> buffers_failed \<in> set n1"
    proof (cases "buffers_failed \<in> set n1")
      case True
      with bad ub [OF refused(1)] o(2) show ?thesis by simp
    next
      case False
      with full have lo: "?P \<le> in_pts s2 ! ?i" by simp
      show ?thesis
      proof
        assume "in_pts s2 ! ?i \<le> out_pts s"
        with lo have "?P \<le> out_pts s" by (rule order_trans)
        then show "?P \<le> out_pts s \<or> buffers_failed \<in> set n1" by simp
      next
        assume "?P \<le> out_pts s \<or> buffers_failed \<in> set n1"
        with False have "?P \<le> out_pts s" by simp
        with ub [OF refused(1)] o(2) have "max (in_pts s1 ! ?i) ?P \<le> out_pts s" by simp
        with hi show "in_pts s2 ! ?i \<le> out_pts s" by (rule order_trans)
      qed
    qed
    finally show ?thesis
      using keeps by simp
  next
    case (accepted s2 s6 s7)
    have i: "?i < length (in_pts s1)" using accepted(1) len o(2) by simp
    have r1: "- 100 < sint (clockrate s1)" using rate o(4) by simp
    from mix_silence_fill_idx_upto_post [OF accepted(2) i r1] obtain n1 where
      rel: "silence_rel s1 s2" and len2: "length (in_pts s2) = length (in_pts s1)"
      and oth: "\<forall>j. j \<noteq> ?i \<longrightarrow> in_pts s2 ! j = in_pts s1 ! j"
      and hi: "in_pts s2 ! ?i \<le> max (in_pts s1 ! ?i) ?P"
      and n1: "evs s2 = n1 @ evs s1" "\<forall>e\<in>set n1. silence_event e"
      and full: "buffers_failed \<notin> set n1 \<longrightarrow> \<not> in_pts s2 ! ?i < ?P"
      unfolding silence_post_def by blast
    have bad: "buffers_failed \<in> set n1 \<Longrightarrow> in_pts s2 = in_pts s1"
      using mix_silence_fill_idx_upto_failed(1) [OF accepted(2) n1(1)] .
    have f2: "out_pts s2 = out_pts s" "clockrate s2 = clockrate s"
      using silence_rel_fields(1,3) [OF rel] o by simp_all
    have i2: "?i < length (in_pts s2)" using i len2 by simp
    have f6: "out_pts s6 = max (out_pts s) ?nx" "clockrate s6 = clockrate s"
      "length (in_pts s6) = NUM_INPUTS"
      "in_pts s6 ! ?i = max (in_pts s2 ! ?i) ?nx"
      "\<And>j. j \<noteq> ?i \<Longrightarrow> in_pts s6 ! j = in_pts s2 ! j"
      "evs s6 = Av_frame_free (Some frame1)
        # Av_buffersrc_add_frame (src_ctxs s2 ! ?i) frame1 0 # n1 @ evs s"
      using i2 len2 len o(2)
      by (simp_all add: accepted(3) emit_def update_counters_fields f2 n1 o(1))
    have r6: "- 100 < sint (clockrate s6)" using rate f6(2) by simp
    note b7 = mix_silence_fill_bounds [OF accepted(4) f6(3) r6]
    from mix_silence_fill_weak [OF accepted(4)] obtain n3 where
      rel7: "silence_rel s6 s7"
      and n3: "evs s7 = n3 @ evs s6" "\<forall>e\<in>set n3. silence_event e"
      by blast
    from mix_drain_post [OF accepted(5)] obtain n4 where
      drel: "drain_rel s7 s'" and n4: "evs s' = n4 @ evs s7" "\<forall>x\<in>set n4. drain_event x"
      unfolding drain_post_def by blast
    have f': "out_pts s' = max (out_pts s) ?nx" "in_pts s' = in_pts s7"
      using drain_rel_fields [OF drel] silence_rel_fields [OF rel7] f6 by simp_all
    have na: "\<forall>e\<in>set (n4 @ n3 @ [Av_frame_free (Some frame1)]). \<not> add_frame_event e"
      using n3(2) n4(2) silence_not_add drain_not_add by auto
    have nb: "\<forall>e\<in>set n1. \<not> add_frame_event e"
      using n1(2) silence_not_add by blast
    have "evs s' = ((n4 @ n3 @ [Av_frame_free (Some frame1)])
        @ Av_buffersrc_add_frame (src_ctxs s2 ! ?i) frame1 0 # n1) @ evs s"
      by (simp add: n4 n3 f6)
    from add_keeps_one [OF this na nb]
    have keeps: "add_keeps s s' \<longleftrightarrow>
        ?P \<le> out_pts s \<or> buffers_failed \<in> set n1 \<or> ?P \<le> ?nx"
      by simp
    have "tracked_inputs s' \<longleftrightarrow> in_pts s2 ! ?i \<le> max (out_pts s) ?nx"
    proof
      assume "tracked_inputs s'"
      with accepted(1) have "in_pts s7 ! ?i \<le> max (out_pts s) ?nx"
        by (simp add: tracked_inputs_def f')
      with b7 [of ?i] have "in_pts s6 ! ?i \<le> max (out_pts s) ?nx"
        by (meson order_trans)
      then show "in_pts s2 ! ?i \<le> max (out_pts s) ?nx"
        by (simp add: f6)
    next
      assume a: "in_pts s2 ! ?i \<le> max (out_pts s) ?nx"
      show "tracked_inputs s'"
        unfolding tracked_inputs_def
      proof (intro allI impI)
        fix j
        assume j: "j < NUM_INPUTS"
        have "in_pts s6 ! j \<le> out_pts s6"
        proof (cases "j = ?i")
          case True
          with a show ?thesis by (simp add: f6)
        next
          case False
          with oth ub [OF j] o(2) show ?thesis
            by (simp add: f6 le_max_iff_disj)
        qed
        with b7 [of j] show "in_pts s' ! j \<le> out_pts s'"
          by (simp add: f' f6 max_absorb2)
      qed
    qed
    also have "\<dots> \<longleftrightarrow> ?P \<le> out_pts s \<or> buffers_failed \<in> set n1 \<or> ?P \<le> ?nx"
    proof (cases "buffers_failed \<in> set n1")
      case True
      with bad ub [OF accepted(1)] o(2) show ?thesis
        by (simp add: le_max_iff_disj)
    next
      case False
      with full have lo: "?P \<le> in_pts s2 ! ?i" by simp
      show ?thesis
      proof
        assume "in_pts s2 ! ?i \<le> max (out_pts s) ?nx"
        with lo have "?P \<le> max (out_pts s) ?nx" by (rule order_trans)
        then show "?P \<le> out_pts s \<or> buffers_failed \<in> set n1 \<or> ?P \<le> ?nx"
          by (auto simp: le_max_iff_disj)
      next
        assume "?P \<le> out_pts s \<or> buffers_failed \<in> set n1 \<or> ?P \<le> ?nx"
        with False have "?P \<le> max (out_pts s) ?nx"
          by (simp add: le_max_iff_disj)
        moreover have "in_pts s1 ! ?i \<le> max (out_pts s) ?nx"
          using ub [OF accepted(1)] o(2) by (simp add: le_max_iff_disj)
        ultimately have "max (in_pts s1 ! ?i) ?P \<le> max (out_pts s) ?nx" by simp
        with hi show "in_pts s2 ! ?i \<le> max (out_pts s) ?nx" by (rule order_trans)
      qed
    qed
    finally show ?thesis
      using keeps by simp
  qed
qed

text \<open>The same without a condition on the clock rate, in terms of the silence chunks
  that the call wrote.\<close>

lemma fills_within_iff:
  assumes add: "mix_add env frame idx outp s = Some (r, s')"
    and len: "length (in_pts s) = NUM_INPUTS" and tr: "tracked_inputs s"
  shows "tracked_inputs s' \<longleftrightarrow> fills_within s s'"
proof -
  obtain frame1 s1 where oa: "offset_adjust frame (unat idx) s = (frame1, s1)"
    by (cases "offset_adjust frame (unat idx) s")
  note o = offset_adjust_fields [OF oa]
  let ?i = "unat idx"
  let ?P = "pts frame1"
  let ?nx = "pts frame1 + scast (nb_samples frame1)"
  from tr have ub: "\<And>j. j < NUM_INPUTS \<Longrightarrow> in_pts s ! j \<le> out_pts s"
    unfolding tracked_inputs_def by simp
  from add oa show ?thesis
  proof (cases rule: mix_add_cases)
    case range
    note f = rejected_fields [OF range(2)]
    from f(5) have "fills_within s s'"
      by (simp add: fills_within_def history_since_append)
    moreover from f tr have "tracked_inputs s'"
      by (simp add: tracked_inputs_def)
    ultimately show ?thesis by simp
  next
    case uninit
    note f = rejected_fields [OF uninit(3)]
    from f(5) have "fills_within s s'"
      by (simp add: fills_within_def history_since_append)
    moreover from f tr have "tracked_inputs s'"
      by (simp add: tracked_inputs_def)
    ultimately show ?thesis by simp
  next
    case (refused s2 ret)
    have i: "?i < length (in_pts s1)" using refused(1) len o(2) by simp
    from mix_silence_fill_idx_upto_weak [OF refused(2)] obtain n1 where
      rel: "silence_rel s1 s2"
      and oth: "\<forall>j. j \<noteq> ?i \<longrightarrow> in_pts s2 ! j = in_pts s1 ! j"
      and n1: "evs s2 = n1 @ evs s1"
      unfolding silence_weak_def by blast
    note L = mix_silence_fill_idx_upto_last [OF refused(2) i n1]
    note f = rejected_fields [OF refused(4)]
    have f': "in_pts s' = in_pts s2" "out_pts s' = out_pts s"
      using f(2,3) silence_rel_fields(3) [OF rel] o by (simp_all add: emit_def)
    from f(5) have "evs s' = ([Av_frame_free (Some frame1),
        Ilog LOG_ERR (''Failed to add frame to mixer: '' @ ''failed to add frame to mixer''),
        Av_buffersrc_add_frame (src_ctxs s2 ! ?i) frame1 ret] @ n1) @ evs s"
      by (simp add: emit_def n1 o(1))
    then have fw: "fills_within s s' \<longleftrightarrow> (\<forall>g\<in>set (written_frames n1). chunk_end g \<le> out_pts s)"
      by (simp add: fills_within_def history_since_append list_all_iff f')
    show ?thesis
    proof
      assume "tracked_inputs s'"
      with refused(1) have a: "in_pts s2 ! ?i \<le> out_pts s"
        by (simp add: tracked_inputs_def f')
      have "\<forall>g\<in>set (written_frames n1). chunk_end g \<le> out_pts s"
      proof (cases "written_frames n1")
        case Nil
        then show ?thesis by simp
      next
        case (Cons g0 rest)
        with L have l: "?P \<le> in_pts s2 ! ?i" "in_pts s2 ! ?i = chunk_end g0"
          "\<forall>h\<in>set rest. chunk_end h < ?P"
          by auto
        from l(1) a have "?P \<le> out_pts s" by (rule order_trans)
        with l(3) have "\<forall>h\<in>set rest. chunk_end h \<le> out_pts s"
          by (meson less_imp_le order_trans)
        with l(2) a show ?thesis by (simp add: Cons)
      qed
      with fw show "fills_within s s'" by simp
    next
      assume "fills_within s s'"
      with fw have w: "\<forall>g\<in>set (written_frames n1). chunk_end g \<le> out_pts s" by simp
      have a: "in_pts s2 ! ?i \<le> out_pts s"
      proof (cases "written_frames n1")
        case Nil
        with L ub [OF refused(1)] o(2) show ?thesis by simp
      next
        case (Cons g0 rest)
        with L w show ?thesis by auto
      qed
      show "tracked_inputs s'"
        unfolding tracked_inputs_def
      proof (intro allI impI)
        fix j
        assume "j < NUM_INPUTS"
        with a oth ub [of j] o(2) show "in_pts s' ! j \<le> out_pts s'"
          by (cases "j = ?i") (simp_all add: f')
      qed
    qed
  next
    case (accepted s2 s6 s7)
    have i: "?i < length (in_pts s1)" using accepted(1) len o(2) by simp
    from mix_silence_fill_idx_upto_weak [OF accepted(2)] obtain n1 where
      rel: "silence_rel s1 s2" and len2: "length (in_pts s2) = length (in_pts s1)"
      and oth: "\<forall>j. j \<noteq> ?i \<longrightarrow> in_pts s2 ! j = in_pts s1 ! j"
      and n1: "evs s2 = n1 @ evs s1"
      unfolding silence_weak_def by blast
    note L = mix_silence_fill_idx_upto_last [OF accepted(2) i n1]
    have f2: "out_pts s2 = out_pts s" "clockrate s2 = clockrate s"
      using silence_rel_fields(1,3) [OF rel] o by simp_all
    have i2: "?i < length (in_pts s2)" using i len2 by simp
    have f6: "out_pts s6 = max (out_pts s) ?nx"
      "length (in_pts s6) = NUM_INPUTS"
      "in_pts s6 ! ?i = max (in_pts s2 ! ?i) ?nx"
      "\<And>j. j \<noteq> ?i \<Longrightarrow> in_pts s6 ! j = in_pts s2 ! j"
      "evs s6 = Av_frame_free (Some frame1)
        # Av_buffersrc_add_frame (src_ctxs s2 ! ?i) frame1 0 # n1 @ evs s"
      using i2 len2 len o(2)
      by (simp_all add: accepted(3) emit_def update_counters_fields f2 n1 o(1))
    from mix_silence_fill_weak [OF accepted(4)] obtain n3 where
      rel7: "silence_rel s6 s7" and n3: "evs s7 = n3 @ evs s6"
      by blast
    from mix_silence_fill_last [OF accepted(4) f6(2) n3]
    have A: "\<forall>g\<in>set (written_frames n3). chunk_end g \<le> out_pts s6
            \<or> (\<exists>j<NUM_INPUTS. in_pts s7 ! j = chunk_end g)"
      and B: "\<forall>j. in_pts s7 ! j = in_pts s6 ! j
            \<or> (\<exists>g\<in>set (written_frames n3). in_pts s7 ! j = chunk_end g)"
      by simp_all
    have m67: "\<And>j. in_pts s6 ! j \<le> in_pts s7 ! j"
      using accepted(4) by (rule mix_silence_fill_mono)
    from mix_drain_post [OF accepted(5)] obtain n4 where
      drel: "drain_rel s7 s'" and n4: "evs s' = n4 @ evs s7" "\<forall>x\<in>set n4. drain_event x"
      unfolding drain_post_def by blast
    have f': "out_pts s' = out_pts s6" "in_pts s' = in_pts s7"
      using drain_rel_fields [OF drel] silence_rel_fields [OF rel7] by simp_all
    have "evs s' = (n4 @ n3 @ Av_frame_free (Some frame1)
        # Av_buffersrc_add_frame (src_ctxs s2 ! ?i) frame1 0 # n1) @ evs s"
      by (simp add: n4 n3 f6)
    then have fw: "fills_within s s' \<longleftrightarrow>
        (\<forall>g\<in>set (written_frames n3) \<union> set (written_frames n1). chunk_end g \<le> out_pts s6)"
      by (simp add: fills_within_def history_since_append list_all_iff f'
          written_frames_append written_frames_drain [OF n4(2)])
    show ?thesis
    proof
      assume t': "tracked_inputs s'"
      then have u7: "\<And>j. j < NUM_INPUTS \<Longrightarrow> in_pts s7 ! j \<le> out_pts s6"
        by (simp add: tracked_inputs_def f')
      have "\<forall>g\<in>set (written_frames n3). chunk_end g \<le> out_pts s6"
      proof
        fix g
        assume "g \<in> set (written_frames n3)"
        with A have "chunk_end g \<le> out_pts s6
            \<or> (\<exists>j<NUM_INPUTS. in_pts s7 ! j = chunk_end g)" by blast
        then show "chunk_end g \<le> out_pts s6"
        proof
          assume "\<exists>j<NUM_INPUTS. in_pts s7 ! j = chunk_end g"
          then obtain j where "j < NUM_INPUTS" "in_pts s7 ! j = chunk_end g" by blast
          with u7 [of j] show ?thesis by simp
        qed
      qed
      moreover have "\<forall>g\<in>set (written_frames n1). chunk_end g \<le> out_pts s6"
      proof (cases "written_frames n1")
        case Nil
        then show ?thesis by simp
      next
        case (Cons g0 rest)
        with L have l: "?P \<le> in_pts s2 ! ?i" "in_pts s2 ! ?i = chunk_end g0"
          "\<forall>h\<in>set rest. chunk_end h < ?P"
          by auto
        have "in_pts s2 ! ?i \<le> in_pts s6 ! ?i" by (simp add: f6)
        also have "\<dots> \<le> in_pts s7 ! ?i" by (rule m67)
        also have "\<dots> \<le> out_pts s6" using accepted(1) by (rule u7)
        finally have a: "in_pts s2 ! ?i \<le> out_pts s6" .
        from l(1) a have "?P \<le> out_pts s6" by (rule order_trans)
        with l(3) have "\<forall>h\<in>set rest. chunk_end h \<le> out_pts s6"
          by (meson less_imp_le order_trans)
        with l(2) a show ?thesis by (simp add: Cons)
      qed
      ultimately show "fills_within s s'"
        using fw by auto
    next
      assume "fills_within s s'"
      with fw have w3: "\<forall>g\<in>set (written_frames n3). chunk_end g \<le> out_pts s6"
        and w1: "\<forall>g\<in>set (written_frames n1). chunk_end g \<le> out_pts s6"
        by auto
      have a: "in_pts s2 ! ?i \<le> out_pts s6"
      proof (cases "written_frames n1")
        case Nil
        with L ub [OF accepted(1)] o(2) show ?thesis
          by (simp add: f6 le_max_iff_disj)
      next
        case (Cons g0 rest)
        with L w1 show ?thesis by auto
      qed
      have u6: "in_pts s6 ! j \<le> out_pts s6" if j: "j < NUM_INPUTS" for j
      proof (cases "j = ?i")
        case True
        with a show ?thesis by (simp add: f6)
      next
        case False
        with oth ub [OF j] o(2) show ?thesis
          by (simp add: f6 le_max_iff_disj)
      qed
      show "tracked_inputs s'"
        unfolding tracked_inputs_def
      proof (intro allI impI)
        fix j
        assume j: "j < NUM_INPUTS"
        from B have "in_pts s7 ! j = in_pts s6 ! j
            \<or> (\<exists>g\<in>set (written_frames n3). in_pts s7 ! j = chunk_end g)"
          by simp
        with u6 [OF j] w3 show "in_pts s' ! j \<le> out_pts s'"
          by (auto simp: f')
      qed
    qed
  qed
qed

lemma step_keeps_iff:
  assumes st: "step env op s = Some s'" and re: "output_reached s" and tr: "tracked_inputs s"
  shows "tracked_inputs s' \<longleftrightarrow> keeps op s s'"
proof (cases op)
  case (Config cr ch)
  with step_same [OF st] tr show ?thesis
    by (simp add: tracked_inputs_def)
next
  case Get_index
  with step_same [OF st] tr show ?thesis
    by (simp add: tracked_inputs_def)
next
  case (Add frame idx outp)
  with st obtain r where add: "mix_add env frame idx outp s = Some (r, s')"
    by (auto simp: ret_sys_def)
  from re have len: "length (in_pts s) = NUM_INPUTS"
    unfolding output_reached_def by simp
  from fills_within_iff [OF add len tr] Add show ?thesis
    by simp
qed

lemma run_reached:
  assumes "run env ops s = Some s'" and "output_reached s"
  shows "output_reached s'"
  using assms
proof (induction ops arbitrary: s)
  case Nil
  then show ?case by simp
next
  case (Cons op ops)
  from Cons.prems(1) obtain t where t: "step env op s = Some t" "run env ops t = Some s'"
    by (auto simp: bind_eq_Some_conv)
  from Cons.IH [OF t(2) step_reached [OF t(1) Cons.prems(2)]] show ?case .
qed

lemma always_first: "always P env ops s \<Longrightarrow> P s"
  by (cases ops) simp_all

lemma always_last:
  assumes "run env ops s = Some s'" and "always P env ops s"
  shows "P s'"
  using assms
proof (induction ops arbitrary: s)
  case Nil
  then show ?case by simp
next
  case (Cons op ops)
  from Cons.prems(1) obtain t where t: "step env op s = Some t" "run env ops t = Some s'"
    by (auto simp: bind_eq_Some_conv)
  with Cons.prems(2) have "always P env ops t" by simp
  from Cons.IH [OF t(2) this] show ?case .
qed

lemma run_always:
  assumes "run env ops s = Some s'" and "output_reached s" and "output_max s"
  shows "always output_max env ops s \<longleftrightarrow> kept env ops s"
  using assms
proof (induction ops arbitrary: s)
  case Nil
  then show ?case by simp
next
  case (Cons op ops)
  from Cons.prems(1) obtain t where t: "step env op s = Some t" "run env ops t = Some s'"
    by (auto simp: bind_eq_Some_conv)
  note re = step_reached [OF t(1) Cons.prems(2)]
  from Cons.prems(2,3) have tr: "tracked_inputs s"
    by (simp add: max_iff_tracked)
  from step_keeps_iff [OF t(1) Cons.prems(2) tr] max_iff_tracked [OF re]
  have k: "keeps op s t \<longleftrightarrow> output_max t" by simp
  show ?case
  proof (cases "output_max t")
    case True
    from Cons.IH [OF t(2) re True] k True Cons.prems(3) t(1) show ?thesis
      by simp
  next
    case False
    with always_first [of output_max env ops t] have "\<not> always output_max env ops t"
      by blast
    with k False t(1) show ?thesis by simp
  qed
qed

text \<open>
  C3 as stated fails in three ways. Input 0 of a session at 200 Hz gets 160 samples,
  then a frame that starts 4 samples after the end of the first. The gap is filled with
  silence, which moves the counter of the input to 164; then the mixer refuses the frame
  and \<^verbatim>\<open>mix_add\<close> returns before it updates the output timestamp, which stays at 160,
  below the counter. Or the mixer takes the second frame, but the frame has a sample
  count of -2: the output timestamp follows to the end of the frame, 162, and the
  counter stays at the start, 164. Or the session is configured with the clock rate
  4294967046, which the \<^verbatim>\<open>int\<close> of the session holds as -250: the size of a silence chunk
  is then \<open>2 ^ 32 - 2\<close>, the chunk that fills a gap of \<open>2 ^ 31 + 5\<close> samples has a negative
  sample count as \<^verbatim>\<open>int\<close>, and the counter of the input wraps around to
  \<open>2 ^ 64 - 2 ^ 31 + 165\<close>, far beyond the output timestamp, although the mixer took the
  frame and the frame ends after its start.
\<close>

theorem timeline_max_broken:
  "map_option (\<lambda>s. (out_pts s, in_pts s))
     (run env_add_once [Config 200 1, Add (pcm 0 160) 0 None, Add (pcm 164 160) 0 None]
        (mix_new env_add_once)) = Some (160, [164, 0, 0, 0])
   \<and> map_option (\<lambda>s. (out_pts s, in_pts s))
     (run env_ok [Config 200 1, Add (pcm 0 160) 0 None, Add (pcm 164 (- 2)) 0 None]
        (mix_new env_ok)) = Some (162, [164, 0, 0, 0])
   \<and> map_option (\<lambda>s. (sint (clockrate s), out_pts s, in_pts s)) reversed
       = Some (- 250, 160, [160, 0, 0, 0])
   \<and> map_option (\<lambda>s. (out_pts s, in_pts s)) reversed2
       = Some (2147483973, [18446744071562068133, 0, 0, 0])
   \<and> map_option (\<lambda>s. map_option (add_keeps s) reversed2) reversed = Some (Some True)"
  by code_simp

text \<open>
  C3, as the code has it. No operation that returns, failed or not, lowers the output
  timestamp or the counter of an input, in whatever state the session is. In every
  session reached from a new one by configurations, index allocations and submissions
  that returned, some counter of an input is at or beyond the output timestamp. The
  output timestamp is the maximum of the counters in every state the sequence went
  through if and only if no submission in it wrote a silence chunk that ends beyond the
  output timestamp the submission left; then it is the maximum in the state reached.
  One operation more keeps it the maximum exactly on this condition. At a clock rate
  above -100, for which the size of a silence chunk is not negative, the condition comes
  to this about the frame submitted: it starts at or before the output timestamp, or the
  mixer takes it and it does not end before its start, or the fill of the gap before it
  gives up for want of buffers.
\<close>

theorem timeline_tracking:
  assumes reach: "run env ops (mix_new env) = Some s"
  shows "(\<forall>op t t'. step env op t = Some t' \<longrightarrow>
            out_pts t \<le> out_pts t' \<and> (\<forall>i. in_pts t ! i \<le> in_pts t' ! i))
    \<and> (\<exists>i<NUM_INPUTS. out_pts s \<le> in_pts s ! i)
    \<and> (always output_max env ops (mix_new env) \<longleftrightarrow> kept env ops (mix_new env))
    \<and> (kept env ops (mix_new env) \<longrightarrow> out_pts s = Max (set (in_pts s)))
    \<and> (\<forall>op s'. step env op s = Some s' \<longrightarrow> output_max s \<longrightarrow>
          (output_max s' \<longleftrightarrow> keeps op s s'))
    \<and> (\<forall>frame idx outp r s'. mix_add env frame idx outp s = Some (r, s') \<longrightarrow>
          output_max s \<longrightarrow> - 100 < sint (clockrate s) \<longrightarrow>
          (output_max s' \<longleftrightarrow> add_keeps s s'))"
proof -
  have re: "output_reached s"
    using reach output_reached_new by (rule run_reached)
  have new: "output_max (mix_new env)"
    using max_iff_tracked [OF output_reached_new] tracked_inputs_new by simp
  have all: "always output_max env ops (mix_new env) \<longleftrightarrow> kept env ops (mix_new env)"
    using reach output_reached_new new by (rule run_always)
  have "\<forall>op t t'. step env op t = Some t' \<longrightarrow>
            out_pts t \<le> out_pts t' \<and> (\<forall>i. in_pts t ! i \<le> in_pts t' ! i)"
    using step_mono by blast
  moreover have "\<exists>i<NUM_INPUTS. out_pts s \<le> in_pts s ! i"
    using re unfolding output_reached_def by simp
  moreover have "out_pts s = Max (set (in_pts s))" if "kept env ops (mix_new env)"
    using always_last [OF reach, of output_max] all that by (simp add: output_max_def)
  moreover have "output_max s' \<longleftrightarrow> keeps op s s'"
    if "step env op s = Some s'" "output_max s" for op s'
  proof -
    from that(2) have tr: "tracked_inputs s"
      using max_iff_tracked [OF re] by simp
    from step_keeps_iff [OF that(1) re tr] max_iff_tracked [OF step_reached [OF that(1) re]]
    show ?thesis by simp
  qed
  moreover have "output_max s' \<longleftrightarrow> add_keeps s s'"
    if "mix_add env frame idx outp s = Some (r, s')" "output_max s"
      "- 100 < sint (clockrate s)" for frame idx outp r s'
  proof -
    from that(2) have tr: "tracked_inputs s"
      using max_iff_tracked [OF re] by simp
    from re have len: "length (in_pts s) = NUM_INPUTS"
      unfolding output_reached_def by simp
    have "step env (Add frame idx outp) s = Some s'"
      using that(1) by (simp add: ret_sys_def)
    from add_keeps_iff [OF that(1) len tr that(3)]
      max_iff_tracked [OF step_reached [OF this re]]
    show ?thesis by simp
  qed
  ultimately show ?thesis using all by blast
qed

theorem timeline_tracking_witness:
  "run env_ok [Config 200 1, Add (pcm 0 204) 0 None] (mix_new env_ok) = Some tracked
   \<and> kept env_ok [Config 200 1, Add (pcm 0 204) 0 None] (mix_new env_ok)
   \<and> always output_max env_ok [Config 200 1, Add (pcm 0 204) 0 None] (mix_new env_ok)
   \<and> out_pts tracked = Max (set (in_pts tracked))
   \<and> (\<exists>i<NUM_INPUTS. out_pts tracked \<le> in_pts tracked ! i)
   \<and> step env_ok (Add (pcm 0 10) 1 None) tracked = Some tracked2
   \<and> mix_add env_ok (pcm 0 10) 1 None tracked = Some (0, tracked2)
   \<and> - 100 < sint (clockrate tracked)
   \<and> keeps (Add (pcm 0 10) 1 None) tracked tracked2
   \<and> add_keeps tracked tracked2
   \<and> out_pts tracked \<le> out_pts tracked2
   \<and> in_pts tracked ! 1 \<le> in_pts tracked2 ! 1
   \<and> output_max tracked2"
proof -
  have h1: "run env_ok [Config 200 1, Add (pcm 0 204) 0 None] (mix_new env_ok) = Some tracked"
    by code_simp
  have h2: "kept env_ok [Config 200 1, Add (pcm 0 204) 0 None] (mix_new env_ok)"
    by code_simp
  have h3: "step env_ok (Add (pcm 0 10) 1 None) tracked = Some tracked2"
    by code_simp
  have h4: "- 100 < sint (clockrate tracked)"
    by code_simp
  have h5: "keeps (Add (pcm 0 10) 1 None) tracked tracked2"
    by code_simp
  have h6: "mix_add env_ok (pcm 0 10) 1 None tracked = Some (0, tracked2)"
    by code_simp
  have h7: "add_keeps tracked tracked2"
    by code_simp
  note t = timeline_tracking [OF h1]
  from t h3 have a: "out_pts tracked \<le> out_pts tracked2"
    and b: "in_pts tracked ! 1 \<le> in_pts tracked2 ! 1"
    by blast+
  from t have c: "\<exists>i<NUM_INPUTS. out_pts tracked \<le> in_pts tracked ! i"
    by blast
  from t h2 have d: "out_pts tracked = Max (set (in_pts tracked))"
    and d': "always output_max env_ok [Config 200 1, Add (pcm 0 204) 0 None] (mix_new env_ok)"
    by blast+
  from d have d2: "output_max tracked"
    by (simp add: output_max_def)
  from t h3 d2 h5 have e: "output_max tracked2"
    by blast
  from h1 h2 d' d c h3 h6 h4 h5 h7 a b e show ?thesis
    by blast
qed

end
